theory Spec2Isabelle
  imports Main "HOL-Library.Word"
begin

section \<open>CSet: a set stored as an ordered array (cset.c)\<close>

text \<open>
  The C code stores the elements of a set in one contiguous buffer of \<open>capacity\<close> slots
  of \<open>elemsz\<close> bytes each, of which the first \<open>n_elements\<close> are live. A slot is
  opaque to the library: it is only copied (\<open>memcpy\<close>, \<open>memmove\<close>) and handed to the
  client's callbacks. The embedding therefore takes the content of a slot as a value of an
  arbitrary type \<open>'a\<close>, and the buffer as the list of its live slots, so that
  \<open>n_elements\<close> is the length of that list. Slots beyond the live ones hold
  indeterminate bytes in C and are not represented. \<open>n_elements\<close> is an \<open>int\<close> in C: the
  embedding is about sets of fewer than \<open>2^31\<close> elements. \<open>elemsz\<close> is the \<open>sizeof\<close> of the
  element type; the library only stores it, compares it and multiplies by it.

  The callbacks are C function pointers that receive the addresses of slots and may read
  any memory of the client. In the embedding a callback receives the content of the slot
  and the client's memory, a value of an arbitrary type \<open>'m\<close>, and it may crash (a
  comparator of strings dereferences the pointers in the slots, for instance):
  \<^item> the comparator reads memory and returns an \<open>int\<close>;
  \<^item> the cleanup function changes memory: it frees what the slot owns;
  \<^item> the toString function reads memory and returns a string, or the NULL pointer
    (\<open>None\<close>).
  An optional callback is NULL (\<open>None\<close>) or a function.
\<close>

datatype error =
    NullDereference      \<comment> \<open>a NULL pointer is dereferenced\<close>
  | InvalidPointer       \<comment> \<open>a pointer to a freed or never allocated block is dereferenced\<close>
  | OutOfBounds          \<comment> \<open>a slot that is not live is read\<close>
  | AssertionFailure     \<comment> \<open>an \<open>assert\<close> aborts the program\<close>
  | BufferOverflow       \<comment> \<open>\<open>strcat\<close> writes past the end of its destination\<close>
  | ShiftOverflow        \<comment> \<open>\<open>1 << n\<close> is not representable in an \<open>int\<close>\<close>

type_synonym size_t = "64 word"

type_synonym 'a CompareFn = "'a \<Rightarrow> 'a \<Rightarrow> error + int"
type_synonym ('a, 'm) CleanupElemFn = "'a \<Rightarrow> 'm \<Rightarrow> error + 'm"
type_synonym ('a, 'm) ToStringFn = "'m \<Rightarrow> 'a \<Rightarrow> error + string option"

record ('a, 'm) CSetImplementation =
  elements :: "'a list"
  elemsz :: size_t
  capacity :: size_t
  cmp_fn :: "'m \<Rightarrow> 'a CompareFn"
  cleanup_fn :: "('a, 'm) CleanupElemFn option"
  toString_fn :: "('a, 'm) ToStringFn option"

definition n_elements :: "('a, 'm) CSetImplementation \<Rightarrow> int" where
  "n_elements s = int (length (elements s))"

definition DEFAULT_CAPACITY :: size_t where
  "DEFAULT_CAPACITY = 32"

definition RESIZE_FACTOR :: size_t where
  "RESIZE_FACTOR = 2"

definition SET_STR_MAX_LEN :: nat where
  "SET_STR_MAX_LEN = 2000"

subsection \<open>Private helpers\<close>

text \<open>\<open>nth(set, n)\<close>: the slot at index \<open>n\<close>. The C code computes an address and reads
  whatever is there; reading a slot that is not live is an error of the model. The code
  never does it as long as the comparator returns (lemmas \<open>cset_add_returns\<close>,
  \<open>cset_contains_returns\<close>).\<close>

definition nth_slot :: "'a list \<Rightarrow> int \<Rightarrow> error + 'a" where
  "nth_slot xs n = (if 0 \<le> n \<and> n < int (length xs) then Inr (xs ! nat n) else Inl OutOfBounds)"

text \<open>\<open>check_resize\<close>: the capacity doubles when \<open>n_elements >= capacity - 1\<close>, compared as
  \<open>size_t\<close>; \<open>realloc\<close> keeps the live slots.\<close>

definition check_resize :: "('a, 'm) CSetImplementation \<Rightarrow> ('a, 'm) CSetImplementation" where
  "check_resize s =
     (if word_of_int (n_elements s) \<ge> capacity s - 1
      then s\<lparr>capacity := capacity s * RESIZE_FACTOR\<rparr>
      else s)"

text \<open>\<open>insert\<close>: the \<open>n_elements - index\<close> slots from \<open>index\<close> on move one slot to the right
  and the new element is copied into slot \<open>index\<close>. The increment of \<open>n_elements\<close> that
  \<open>cset_add\<close> does right after is the growth of the list.\<close>

definition insert_elem ::
  "('a, 'm) CSetImplementation \<Rightarrow> 'a \<Rightarrow> int \<Rightarrow> ('a, 'm) CSetImplementation" where
  "insert_elem s elem index =
     s\<lparr>elements := take (nat index) (elements s) @ elem # drop (nat index) (elements s)\<rparr>"

subsection \<open>cset_add\<close>

text \<open>The first loop of \<open>cset_add\<close>: \<open>None\<close> when a comparison returns 0 (the function
  returns false there), otherwise the index at which the loop ends.\<close>

function add_search ::
  "'a CompareFn \<Rightarrow> 'a \<Rightarrow> 'a list \<Rightarrow> int \<Rightarrow> int \<Rightarrow> error + int option" where
  "add_search cmp elem xs partial_sz index =
     (if partial_sz > 1 then
        (case nth_slot xs index of Inl e \<Rightarrow> Inl e | Inr slot \<Rightarrow>
        (case cmp elem slot of Inl e \<Rightarrow> Inl e | Inr cmp_result \<Rightarrow>
           (let partial_sz' = partial_sz div 2
            in if cmp_result = 0 then Inr None
               else if cmp_result > 0
                 then add_search cmp elem xs partial_sz' (index + partial_sz' div 2)
               else add_search cmp elem xs partial_sz' (index - partial_sz' div 2))))
      else Inr (Some index))"
  by pat_completeness auto
termination
  by (relation "measure (\<lambda>(cmp, elem, xs, partial_sz, index). nat partial_sz)") auto

declare add_search.simps [simp del]

text \<open>The second loop of \<open>cset_add\<close>: the linear scan forward.\<close>

function add_scan :: "'a CompareFn \<Rightarrow> 'a \<Rightarrow> 'a list \<Rightarrow> int \<Rightarrow> error + int" where
  "add_scan cmp elem xs index =
     (if index < int (length xs) then
        (case nth_slot xs index of Inl e \<Rightarrow> Inl e | Inr slot \<Rightarrow>
        (case cmp elem slot of Inl e \<Rightarrow> Inl e | Inr cmp_result \<Rightarrow>
           (if cmp_result > 0 then add_scan cmp elem xs (index + 1) else Inr index)))
      else Inr index)"
  by pat_completeness auto
termination
  by (relation "measure (\<lambda>(cmp, elem, xs, index). nat (int (length xs) - index))") auto

declare add_scan.simps [simp del]

definition cset_add ::
  "'m \<Rightarrow> ('a, 'm) CSetImplementation \<Rightarrow> 'a \<Rightarrow> error + bool \<times> ('a, 'm) CSetImplementation" where
  "cset_add m s elem =
     (case add_search (cmp_fn s m) elem (elements s) (n_elements s) (n_elements s div 2) of
        Inl e \<Rightarrow> Inl e
      | Inr None \<Rightarrow> Inr (False, s)
      | Inr (Some index) \<Rightarrow>
          (case add_scan (cmp_fn s m) elem (elements s) (if index = 1 then 0 else index) of
             Inl e \<Rightarrow> Inl e
           | Inr index \<Rightarrow> Inr (True, insert_elem (check_resize s) elem index)))"

subsection \<open>cset_contains and cset_remove\<close>

text \<open>\<open>bsearch\<close> of the C library, as the usual halving loop over \<open>[l, u)\<close>; the result is
  the index of the slot found (the code turns the pointer into that index with
  \<open>get_index\<close>), or \<open>None\<close> for NULL. \<open>bsearch\<close> starts it with \<open>u\<close> the number of slots,
  so that \<open>idx\<close> is the index of a live slot.\<close>

function bsearch_loop ::
  "'a CompareFn \<Rightarrow> 'a \<Rightarrow> 'a list \<Rightarrow> nat \<Rightarrow> nat \<Rightarrow> error + nat option" where
  "bsearch_loop cmp key xs l u =
     (if l < u then
        (let idx = (l + u) div 2
         in (case nth_slot xs (int idx) of Inl e \<Rightarrow> Inl e | Inr slot \<Rightarrow>
            (case cmp key slot of Inl e \<Rightarrow> Inl e | Inr comparison \<Rightarrow>
               (if comparison < 0 then bsearch_loop cmp key xs l idx
                else if comparison > 0 then bsearch_loop cmp key xs (idx + 1) u
                else Inr (Some idx)))))
      else Inr None)"
  by pat_completeness auto
termination
  by (relation "measure (\<lambda>(cmp, key, xs, l, u). u - l)") auto

declare bsearch_loop.simps [simp del]

definition bsearch :: "'a CompareFn \<Rightarrow> 'a \<Rightarrow> 'a list \<Rightarrow> error + nat option" where
  "bsearch cmp key xs = bsearch_loop cmp key xs 0 (length xs)"

definition cset_contains :: "'m \<Rightarrow> ('a, 'm) CSetImplementation \<Rightarrow> 'a \<Rightarrow> error + bool" where
  "cset_contains m s elem =
     (case bsearch (cmp_fn s m) elem (elements s) of
        Inl e \<Rightarrow> Inl e
      | Inr found \<Rightarrow> Inr (found \<noteq> None))"

text \<open>\<open>cset_remove\<close>: \<open>memmove\<close> copies the slots after the one found one slot to the left
  (and with them the dead slot \<open>n_elements\<close>, which lands in the slot that dies), and
  \<open>n_elements\<close> is decremented. The function calls no callback but the comparator, so
  the client's memory is read only and is not part of the result.\<close>

definition cset_remove ::
  "'m \<Rightarrow> ('a, 'm) CSetImplementation \<Rightarrow> 'a \<Rightarrow> error + bool \<times> ('a, 'm) CSetImplementation" where
  "cset_remove m s elem =
     (case bsearch (cmp_fn s m) elem (elements s) of
        Inl e \<Rightarrow> Inl e
      | Inr None \<Rightarrow> Inr (False, s)
      | Inr (Some index) \<Rightarrow>
          Inr (True, s\<lparr>elements := take index (elements s) @ drop (index + 1) (elements s)\<rparr>))"

subsection \<open>cset_clear, cset_size, cset_isEmpty, cset_toString\<close>

text \<open>The loop \<open>for (i = 0; i < n_elements; i++) cleanup_fn(nth(set, i))\<close> of \<open>cset_clear\<close>
  and \<open>cset_delete\<close>; it stops at the first call that crashes.\<close>

fun cleanup_each :: "('a, 'm) CleanupElemFn \<Rightarrow> 'a list \<Rightarrow> 'm \<Rightarrow> error + 'm" where
  "cleanup_each f [] m = Inr m"
| "cleanup_each f (x # xs) m =
     (case f x m of Inl e \<Rightarrow> Inl e | Inr m' \<Rightarrow> cleanup_each f xs m')"

definition cset_clear ::
  "'m \<Rightarrow> ('a, 'm) CSetImplementation \<Rightarrow> error + ('a, 'm) CSetImplementation \<times> 'm" where
  "cset_clear m s =
     (case cleanup_fn s of
        None \<Rightarrow> Inr (s\<lparr>elements := []\<rparr>, m)
      | Some f \<Rightarrow>
          (case cleanup_each f (elements s) m of
             Inl e \<Rightarrow> Inl e
           | Inr m' \<Rightarrow> Inr (s\<lparr>elements := []\<rparr>, m')))"

definition cset_size :: "('a, 'm) CSetImplementation \<Rightarrow> int" where
  "cset_size s = n_elements s"

definition cset_isEmpty :: "('a, 'm) CSetImplementation \<Rightarrow> bool" where
  "cset_isEmpty s = (n_elements s = 0)"

text \<open>\<open>strcat\<close> into the array \<open>char set_str[SET_STR_MAX_LEN]\<close>: the characters and the
  terminating NUL must fit; writing past the array is undefined and is an error here.
  A \<open>string\<close> stands for the characters of a C string before its NUL.\<close>

definition strcat :: "string \<Rightarrow> string \<Rightarrow> error + string" where
  "strcat dest src =
     (if length dest + length src + 1 > SET_STR_MAX_LEN then Inl BufferOverflow
      else Inr (dest @ src))"

text \<open>The loop of \<open>cset_toString\<close>. The test \<open>i != n_elements - 1\<close> is "this is not the
  last element". \<open>strcat\<close> with the NULL pointer as its source dereferences it.\<close>

fun toString_loop :: "('a, 'm) ToStringFn \<Rightarrow> 'm \<Rightarrow> string \<Rightarrow> 'a list \<Rightarrow> error + string" where
  "toString_loop f m set_str [] = Inr set_str"
| "toString_loop f m set_str (x # xs) =
     (case f m x of
        Inl e \<Rightarrow> Inl e
      | Inr None \<Rightarrow> Inl NullDereference
      | Inr (Some elem_str) \<Rightarrow>
          (case strcat set_str elem_str of
             Inl e \<Rightarrow> Inl e
           | Inr set_str \<Rightarrow>
               (if xs \<noteq> [] then
                  (case strcat set_str '', '' of
                     Inl e \<Rightarrow> Inl e
                   | Inr set_str \<Rightarrow> toString_loop f m set_str xs)
                else toString_loop f m set_str xs)))"

definition cset_toString :: "'m \<Rightarrow> ('a, 'm) CSetImplementation \<Rightarrow> error + string option" where
  "cset_toString m s =
     (case toString_fn s of
        None \<Rightarrow> Inr None
      | Some f \<Rightarrow>
          (case toString_loop f m ''{'' (elements s) of
             Inl e \<Rightarrow> Inl e
           | Inr set_str \<Rightarrow>
               (case strcat set_str ''}'' of
                  Inl e \<Rightarrow> Inl e
                | Inr set_str \<Rightarrow> Inr (Some set_str))))"

section \<open>Sets behind pointers\<close>

text \<open>
  The operations on two sets, \<open>cset_create\<close>, \<open>cset_delete\<close> and the callbacks for nested
  sets work on pointers \<open>CSet*\<close>. A store holds the set structures that \<open>malloc\<close> has
  returned so far, by address (the index in \<open>heap\<close>), and the client's memory. A freed
  block is \<open>None\<close>; \<open>malloc\<close> returns the next address and is taken never to fail. The
  buffer of a set is a block of its own in C, reachable only through the \<open>elements\<close>
  field of that set; it is kept inside the structure.
\<close>

type_synonym addr = nat
type_synonym ptr = "addr option"  \<comment> \<open>\<open>CSet*\<close>; \<open>None\<close> is NULL\<close>

record ('a, 'm) store =
  heap :: "('a, 'm) CSetImplementation option list"
  mem :: 'm

definition deref :: "('a, 'm) store \<Rightarrow> ptr \<Rightarrow> error + ('a, 'm) CSetImplementation" where
  "deref st p =
     (case p of
        None \<Rightarrow> Inl NullDereference
      | Some a \<Rightarrow>
          (if a < length (heap st) then
             (case heap st ! a of None \<Rightarrow> Inl InvalidPointer | Some s \<Rightarrow> Inr s)
           else Inl InvalidPointer))"

definition assign :: "('a, 'm) store \<Rightarrow> addr \<Rightarrow> ('a, 'm) CSetImplementation \<Rightarrow> ('a, 'm) store" where
  "assign st a s = st\<lparr>heap := (heap st)[a := Some s]\<rparr>"

definition malloc :: "('a, 'm) store \<Rightarrow> ('a, 'm) CSetImplementation \<Rightarrow> addr \<times> ('a, 'm) store" where
  "malloc st s = (length (heap st), st\<lparr>heap := heap st @ [Some s]\<rparr>)"

definition free :: "('a, 'm) store \<Rightarrow> addr \<Rightarrow> ('a, 'm) store" where
  "free st a = st\<lparr>heap := (heap st)[a := None]\<rparr>"

subsection \<open>cset_create and cset_delete\<close>

text \<open>The comparator argument may be the NULL pointer, which the first \<open>assert\<close> refuses.\<close>

definition cset_create ::
  "('a, 'm) store \<Rightarrow> size_t \<Rightarrow> size_t \<Rightarrow> ('m \<Rightarrow> 'a CompareFn) option \<Rightarrow>
   ('a, 'm) CleanupElemFn option \<Rightarrow> ('a, 'm) ToStringFn option \<Rightarrow>
   error + ptr \<times> ('a, 'm) store" where
  "cset_create st elemsz' capacity_hint cmp cleanup toString =
     (case cmp of
        None \<Rightarrow> Inl AssertionFailure
      | Some c \<Rightarrow>
          (let capacity' = (if capacity_hint = 0 then DEFAULT_CAPACITY else capacity_hint);
               (a, st') = malloc st \<lparr>elements = [], elemsz = elemsz', capacity = capacity',
                                     cmp_fn = c, cleanup_fn = cleanup, toString_fn = toString\<rparr>
           in Inr (Some a, st')))"

definition cset_delete :: "('a, 'm) store \<Rightarrow> ptr \<Rightarrow> error + ('a, 'm) store" where
  "cset_delete st set' =
     (case set' of
        None \<Rightarrow> Inl NullDereference
      | Some a \<Rightarrow>
          (case deref st (Some a) of
             Inl e \<Rightarrow> Inl e
           | Inr s \<Rightarrow>
               (case cleanup_fn s of
                  None \<Rightarrow> Inr (free st a)
                | Some f \<Rightarrow>
                    (case cleanup_each f (elements s) (mem st) of
                       Inl e \<Rightarrow> Inl e
                     | Inr m' \<Rightarrow> Inr (free (st\<lparr>mem := m'\<rparr>) a)))))"

subsection \<open>Calls through a pointer\<close>

text \<open>\<open>cset_add(set, elem)\<close> and \<open>cset_contains(set, elem)\<close> on a pointer: the structure is
  read from the store and, for \<open>cset_add\<close>, written back to the same address.\<close>

definition cset_add_at :: "('a, 'm) store \<Rightarrow> ptr \<Rightarrow> 'a \<Rightarrow> error + bool \<times> ('a, 'm) store" where
  "cset_add_at st set' elem =
     (case set' of
        None \<Rightarrow> Inl NullDereference
      | Some a \<Rightarrow>
          (case deref st (Some a) of
             Inl e \<Rightarrow> Inl e
           | Inr s \<Rightarrow>
               (case cset_add (mem st) s elem of
                  Inl e \<Rightarrow> Inl e
                | Inr (b, s') \<Rightarrow> Inr (b, assign st a s'))))"

definition cset_contains_at :: "('a, 'm) store \<Rightarrow> ptr \<Rightarrow> 'a \<Rightarrow> error + bool" where
  "cset_contains_at st set' elem =
     (case deref st set' of
        Inl e \<Rightarrow> Inl e
      | Inr s \<Rightarrow> cset_contains (mem st) s elem)"

subsection \<open>cset_isSubsetOf\<close>

text \<open>The loops below run over the live slots of an operand. No loop body writes to an
  operand (the only set written is the fresh result), so the slots are read once, when the
  loop starts.\<close>

fun isSubsetOf_loop :: "('a, 'm) store \<Rightarrow> ptr \<Rightarrow> 'a list \<Rightarrow> error + bool" where
  "isSubsetOf_loop st set2 [] = Inr True"
| "isSubsetOf_loop st set2 (x # xs) =
     (case cset_contains_at st set2 x of
        Inl e \<Rightarrow> Inl e
      | Inr c \<Rightarrow> (if \<not> c then Inr False else isSubsetOf_loop st set2 xs))"

definition cset_isSubsetOf :: "('a, 'm) store \<Rightarrow> ptr \<Rightarrow> ptr \<Rightarrow> error + bool" where
  "cset_isSubsetOf st set1 set2 =
     (if set1 = set2 then Inr True
      else (case deref st set1 of
              Inl e \<Rightarrow> Inl e
            | Inr s1 \<Rightarrow> isSubsetOf_loop st set2 (elements s1)))"

subsection \<open>cset_union, cset_intersect, cset_difference, cset_symmetricDifference\<close>

fun add_each :: "('a, 'm) store \<Rightarrow> ptr \<Rightarrow> 'a list \<Rightarrow> error + ('a, 'm) store" where
  "add_each st u [] = Inr st"
| "add_each st u (x # xs) =
     (case cset_add_at st u x of
        Inl e \<Rightarrow> Inl e
      | Inr (b, st') \<Rightarrow> add_each st' u xs)"

definition cset_union :: "('a, 'm) store \<Rightarrow> ptr \<Rightarrow> ptr \<Rightarrow> error + ptr \<times> ('a, 'm) store" where
  "cset_union st set1 set2 =
     (if set1 = None \<or> set2 = None then Inr (None, st)
      else
        (case deref st set1 of Inl e \<Rightarrow> Inl e | Inr s1 \<Rightarrow>
        (case deref st set2 of Inl e \<Rightarrow> Inl e | Inr s2 \<Rightarrow>
           (if elemsz s1 \<noteq> elemsz s2 then Inl AssertionFailure
            else
              (case cset_create st (elemsz s1) (capacity s1) (Some (cmp_fn s1))
                      (cleanup_fn s1) (toString_fn s1) of
                 Inl e \<Rightarrow> Inl e
               | Inr (u, st) \<Rightarrow>
                   (case add_each st u (elements s1) of Inl e \<Rightarrow> Inl e | Inr st \<Rightarrow>
                   (case add_each st u (elements s2) of Inl e \<Rightarrow> Inl e | Inr st \<Rightarrow>
                      Inr (u, st))))))))"

text \<open>The loop of \<open>cset_intersect\<close> and of \<open>cset_difference\<close>: the element is added when
  \<open>cset_contains(set2, elem)\<close> equals \<open>keep\<close>.\<close>

fun select_each ::
  "bool \<Rightarrow> ('a, 'm) store \<Rightarrow> ptr \<Rightarrow> ptr \<Rightarrow> 'a list \<Rightarrow> error + ('a, 'm) store" where
  "select_each keep st set2 r [] = Inr st"
| "select_each keep st set2 r (x # xs) =
     (case cset_contains_at st set2 x of
        Inl e \<Rightarrow> Inl e
      | Inr c \<Rightarrow>
          (if c = keep then
             (case cset_add_at st r x of
                Inl e \<Rightarrow> Inl e
              | Inr (b, st') \<Rightarrow> select_each keep st' set2 r xs)
           else select_each keep st set2 r xs))"

text \<open>\<open>cset_intersect\<close> runs over the first \<open>smaller_sz\<close> slots of \<open>set1\<close>, where
  \<open>smaller_sz\<close> is the smaller of the two element counts.\<close>

definition cset_intersect :: "('a, 'm) store \<Rightarrow> ptr \<Rightarrow> ptr \<Rightarrow> error + ptr \<times> ('a, 'm) store" where
  "cset_intersect st set1 set2 =
     (if set1 = None \<or> set2 = None then Inr (None, st)
      else
        (case deref st set1 of Inl e \<Rightarrow> Inl e | Inr s1 \<Rightarrow>
        (case deref st set2 of Inl e \<Rightarrow> Inl e | Inr s2 \<Rightarrow>
           (if elemsz s1 \<noteq> elemsz s2 then Inl AssertionFailure
            else
              (case cset_create st (elemsz s1) (capacity s1) (Some (cmp_fn s1))
                      (cleanup_fn s1) (toString_fn s1) of
                 Inl e \<Rightarrow> Inl e
               | Inr (intersect, st) \<Rightarrow>
                   (let smaller_sz = (if n_elements s1 < n_elements s2 then n_elements s1
                                      else n_elements s2)
                    in (case select_each True st set2 intersect
                               (take (nat smaller_sz) (elements s1)) of
                          Inl e \<Rightarrow> Inl e
                        | Inr st \<Rightarrow> Inr (intersect, st))))))))"

definition cset_difference :: "('a, 'm) store \<Rightarrow> ptr \<Rightarrow> ptr \<Rightarrow> error + ptr \<times> ('a, 'm) store" where
  "cset_difference st set1 set2 =
     (if set1 = None \<or> set2 = None then Inr (None, st)
      else
        (case deref st set1 of Inl e \<Rightarrow> Inl e | Inr s1 \<Rightarrow>
        (case deref st set2 of Inl e \<Rightarrow> Inl e | Inr s2 \<Rightarrow>
           (if elemsz s1 \<noteq> elemsz s2 then Inl AssertionFailure
            else
              (case cset_create st (elemsz s1) (capacity s1) (Some (cmp_fn s1))
                      (cleanup_fn s1) (toString_fn s1) of
                 Inl e \<Rightarrow> Inl e
               | Inr (diff, st) \<Rightarrow>
                   (case select_each False st set2 diff (elements s1) of
                      Inl e \<Rightarrow> Inl e
                    | Inr st \<Rightarrow> Inr (diff, st)))))))"

definition cset_symmetricDifference ::
  "('a, 'm) store \<Rightarrow> ptr \<Rightarrow> ptr \<Rightarrow> error + ptr \<times> ('a, 'm) store" where
  "cset_symmetricDifference st set1 set2 =
     (case cset_difference st set1 set2 of Inl e \<Rightarrow> Inl e | Inr (diff1, st) \<Rightarrow>
     (case cset_difference st set2 set1 of Inl e \<Rightarrow> Inl e | Inr (diff2, st) \<Rightarrow>
     (case cset_union st diff1 diff2 of Inl e \<Rightarrow> Inl e | Inr (symm_diff, st) \<Rightarrow>
     (case cset_delete st diff1 of Inl e \<Rightarrow> Inl e | Inr st \<Rightarrow>
     (case cset_delete st diff2 of Inl e \<Rightarrow> Inl e | Inr st \<Rightarrow>
        Inr (symm_diff, st))))))"

section \<open>Sets of sets\<close>

text \<open>
  A set whose elements are sets stores pointers \<open>CSet*\<close> in its slots, and its callbacks
  are \<open>cset_compare\<close>, \<open>cset_cleanup\<close> and \<open>cset_genericToString\<close>. They dereference the
  pointer in the slot, so the memory they work on is the store that holds the inner sets.
\<close>

text \<open>The loop of \<open>cset_compare\<close> over the slots of both sets; it runs only when both have
  the same number of elements.\<close>

fun compare_loop :: "'a CompareFn \<Rightarrow> 'a list \<Rightarrow> 'a list \<Rightarrow> error + int" where
  "compare_loop cmp (x # xs) (y # ys) =
     (case cmp x y of
        Inl e \<Rightarrow> Inl e
      | Inr cmp_result \<Rightarrow> (if cmp_result \<noteq> 0 then Inr cmp_result else compare_loop cmp xs ys))"
| "compare_loop cmp xs ys = Inr 0"

text \<open>\<open>cset_compare\<close>. The difference of the two \<open>elemsz\<close> is computed in \<open>size_t\<close> and
  returned as an \<open>int\<close>, which keeps its low 32 bits.\<close>

definition cset_compare :: "('a, 'm) store \<Rightarrow> ptr CompareFn" where
  "cset_compare st set1 set2 =
     (if set1 = set2 then Inr 0
      else
        (case deref st set1 of Inl e \<Rightarrow> Inl e | Inr s1 \<Rightarrow>
        (case deref st set2 of Inl e \<Rightarrow> Inl e | Inr s2 \<Rightarrow>
           (if n_elements s1 \<noteq> n_elements s2 then Inr (n_elements s1 - n_elements s2)
            else if elemsz s1 \<noteq> elemsz s2
              then Inr (sint (ucast (elemsz s1 - elemsz s2) :: 32 word))
            else compare_loop (cmp_fn s1 (mem st)) (elements s1) (elements s2)))))"

definition cset_cleanup :: "(ptr, ('a, 'm) store) CleanupElemFn" where
  "cset_cleanup set' st = cset_delete st set'"

definition cset_genericToString :: "(ptr, ('a, 'm) store) ToStringFn" where
  "cset_genericToString st set' =
     (case deref st set' of Inl e \<Rightarrow> Inl e | Inr s \<Rightarrow> cset_toString (mem st) s)"

subsection \<open>cset_powerSet\<close>

definition sizeof_CSet_ptr :: size_t where
  "sizeof_CSet_ptr = 8"

text \<open>\<open>__builtin_popcount\<close>: the number of bits that are set.\<close>

fun popcount :: "nat \<Rightarrow> nat" where
  "popcount n = (if n = 0 then 0 else n mod 2 + popcount (n div 2))"

declare popcount.simps [simp del]

text \<open>The inner loop: slot \<open>i\<close> of the set is added to the subset when
  \<open>(bit_vector >> i) & 1\<close>.\<close>

fun subset_loop ::
  "('a, 'm) store \<Rightarrow> ptr \<Rightarrow> nat \<Rightarrow> 'a list \<Rightarrow> nat \<Rightarrow> error + ('a, 'm) store" where
  "subset_loop st subset' bit_vector [] i = Inr st"
| "subset_loop st subset' bit_vector (x # xs) i =
     (if bit bit_vector i then
        (case cset_add_at st subset' x of
           Inl e \<Rightarrow> Inl e
         | Inr (b, st') \<Rightarrow> subset_loop st' subset' bit_vector xs (i + 1))
      else subset_loop st subset' bit_vector xs (i + 1))"

text \<open>The outer loop, over the bit vectors from \<open>bit_vector\<close> up to \<open>pset_size - 1\<close>. The
  power set lives in the outer store, the subsets in the store of the given set, which is
  the memory of the outer store.\<close>

function powerSet_loop ::
  "(ptr, ('a, 'm) store) store \<Rightarrow> ('a, 'm) CSetImplementation \<Rightarrow> ptr \<Rightarrow> nat \<Rightarrow> nat \<Rightarrow>
   error + (ptr, ('a, 'm) store) store" where
  "powerSet_loop st s power_set pset_size bit_vector =
     (if bit_vector < pset_size then
        (case cset_create (mem st) (elemsz s) (word_of_nat (popcount bit_vector))
                (Some (cmp_fn s)) (cleanup_fn s) (toString_fn s) of
           Inl e \<Rightarrow> Inl e
         | Inr (subset', inner) \<Rightarrow>
             (case subset_loop inner subset' bit_vector (elements s) 0 of
                Inl e \<Rightarrow> Inl e
              | Inr inner \<Rightarrow>
                  (case cset_add_at (st\<lparr>mem := inner\<rparr>) power_set subset' of
                     Inl e \<Rightarrow> Inl e
                   | Inr (b, st') \<Rightarrow> powerSet_loop st' s power_set pset_size (bit_vector + 1))))
      else Inr st)"
  by pat_completeness auto
termination
  by (relation "measure (\<lambda>(st, s, power_set, pset_size, bit_vector). pset_size - bit_vector)") auto

declare powerSet_loop.simps [simp del]

text \<open>\<open>cset_powerSet\<close>. \<open>1 << set_size\<close> is an \<open>int\<close>: from 31 elements on the shift is
  undefined, an error here.\<close>

definition cset_powerSet ::
  "(ptr, ('a, 'm) store) store \<Rightarrow> ptr \<Rightarrow> error + ptr \<times> (ptr, ('a, 'm) store) store" where
  "cset_powerSet st set' =
     (case deref (mem st) set' of Inl e \<Rightarrow> Inl e | Inr s \<Rightarrow>
        (let set_size = n_elements s in
         if set_size \<ge> 31 then Inl ShiftOverflow
         else
           (let pset_size = (2 :: nat) ^ nat set_size in
            (case cset_create st sizeof_CSet_ptr (word_of_nat pset_size)
                    (Some cset_compare) (Some cset_cleanup) (Some cset_genericToString) of
               Inl e \<Rightarrow> Inl e
             | Inr (power_set, st) \<Rightarrow>
                 (case cset_create (mem st) (elemsz s) 1
                         (Some (cmp_fn s)) (cleanup_fn s) (toString_fn s) of
                    Inl e \<Rightarrow> Inl e
                  | Inr (empty', inner) \<Rightarrow>
                      (case cset_add_at (st\<lparr>mem := inner\<rparr>) power_set empty' of
                         Inl e \<Rightarrow> Inl e
                       | Inr (b, st) \<Rightarrow>
                           (case powerSet_loop st s power_set pset_size 1 of
                              Inl e \<Rightarrow> Inl e
                            | Inr st \<Rightarrow> Inr (power_set, st))))))))"

section \<open>The client functions of set_test.c\<close>

text \<open>Sets of \<open>int\<close>: the slot holds the number, the callbacks use no memory. The
  subtraction of \<open>compare_ints\<close> is a C \<open>int\<close> subtraction; the numbers used below are
  small, so it does not overflow.\<close>

definition compare_ints :: "'m \<Rightarrow> int CompareFn" where
  "compare_ints m num1 num2 = Inr (num1 - num2)"

text \<open>\<open>sprintf(str, "%d", num)\<close>: the decimal digits, after a minus sign for a negative
  number.\<close>

fun decimal :: "nat \<Rightarrow> string" where
  "decimal n =
     (if n < 10 then [''0123456789'' ! n] else decimal (n div 10) @ [''0123456789'' ! (n mod 10)])"

declare decimal.simps [simp del]

definition print_int :: "(int, 'm) ToStringFn" where
  "print_int m num = Inr (Some (if num < 0 then CHR ''-'' # decimal (nat (- num)) else decimal (nat num)))"

text \<open>Sets of strings: the slot holds a \<open>char*\<close>, the address of a block of the client's
  memory, which is a list of blocks; a block that was freed is \<open>None\<close>.\<close>

type_synonym strings = "string option list"

definition str_at :: "strings \<Rightarrow> addr \<Rightarrow> error + string" where
  "str_at m a =
     (if a < length m then (case m ! a of None \<Rightarrow> Inl InvalidPointer | Some str \<Rightarrow> Inr str)
      else Inl InvalidPointer)"

fun strcmp :: "string \<Rightarrow> string \<Rightarrow> int" where
  "strcmp [] [] = 0"
| "strcmp [] (c2 # str2) = - int (of_char c2 :: nat)"
| "strcmp (c1 # str1) [] = int (of_char c1 :: nat)"
| "strcmp (c1 # str1) (c2 # str2) =
     (if c1 = c2 then strcmp str1 str2 else int (of_char c1 :: nat) - int (of_char c2 :: nat))"

definition compare_strs :: "strings \<Rightarrow> addr CompareFn" where
  "compare_strs m addr1 addr2 =
     (case str_at m addr1 of Inl e \<Rightarrow> Inl e | Inr str1 \<Rightarrow>
     (case str_at m addr2 of Inl e \<Rightarrow> Inl e | Inr str2 \<Rightarrow> Inr (strcmp str1 str2)))"

definition cleanup_str :: "(addr, strings) CleanupElemFn" where
  "cleanup_str a m = (case str_at m a of Inl e \<Rightarrow> Inl e | Inr str \<Rightarrow> Inr (m[a := None]))"

definition print_str :: "(addr, strings) ToStringFn" where
  "print_str m a = (case str_at m a of Inl e \<Rightarrow> Inl e | Inr str \<Rightarrow> Inr (Some str))"

text \<open>The loop \<open>for (i = 0; i < n; i++) cset_add(set, &values[i])\<close> of the tests.\<close>

fun add_values ::
  "'m \<Rightarrow> ('a, 'm) CSetImplementation \<Rightarrow> 'a list \<Rightarrow> error + ('a, 'm) CSetImplementation" where
  "add_values m s [] = Inr s"
| "add_values m s (x # xs) =
     (case cset_add m s x of Inl e \<Rightarrow> Inl e | Inr (b, s') \<Rightarrow> add_values m s' xs)"

text \<open>The set that \<open>cset_create(sizeof(int), 10, compare_ints, NULL, print_int)\<close> of
  \<open>simple_test\<close> returns, with the given slots; and the set of a client that stores
  heap-allocated strings and has them freed by the set,
  \<open>cset_create(sizeof(char*), 3, compare_strs, cleanup_str, print_str)\<close>.\<close>

definition int_set :: "int list \<Rightarrow> (int, unit) CSetImplementation" where
  "int_set xs = \<lparr>elements = xs, elemsz = 4, capacity = 10, cmp_fn = compare_ints,
                 cleanup_fn = None, toString_fn = Some print_int\<rparr>"

definition str_set :: "addr list \<Rightarrow> (addr, strings) CSetImplementation" where
  "str_set xs = \<lparr>elements = xs, elemsz = 8, capacity = 3, cmp_fn = compare_strs,
                 cleanup_fn = Some cleanup_str, toString_fn = Some print_str\<rparr>"

section \<open>Properties\<close>

text \<open>\<open>e1\<close> is less than \<open>e2\<close>: the comparator returns a negative number. The sorted
  invariant of the specification is that each live slot is less than the next one.\<close>

definition less_by :: "'a CompareFn \<Rightarrow> 'a \<Rightarrow> 'a \<Rightarrow> bool" where
  "less_by cmp e1 e2 = (case cmp e1 e2 of Inl e \<Rightarrow> False | Inr c \<Rightarrow> c < 0)"

definition strictly_sorted :: "'m \<Rightarrow> ('a, 'm) CSetImplementation \<Rightarrow> bool" where
  "strictly_sorted m s = successively (less_by (cmp_fn s m)) (elements s)"

text \<open>Two set structures with the same element size and the same callbacks.\<close>

definition same_kind :: "('a, 'm) CSetImplementation \<Rightarrow> ('a, 'm) CSetImplementation \<Rightarrow> bool" where
  "same_kind s s' \<longleftrightarrow>
     elemsz s' = elemsz s \<and> cmp_fn s' = cmp_fn s \<and> cleanup_fn s' = cleanup_fn s \<and>
     toString_fn s' = toString_fn s"

text \<open>The rendering of the specification: \<open>{e1, e2, ..., en}\<close>, the strings of the
  elements separated by a comma and a space, with no separator after the last one.\<close>

fun join_strs :: "string list \<Rightarrow> string" where
  "join_strs [] = []"
| "join_strs [e] = e"
| "join_strs (e # es) = e @ '', '' @ join_strs es"

definition set_format :: "string list \<Rightarrow> string" where
  "set_format strs = ''{'' @ join_strs strs @ ''}''"

text \<open>A valid comparator on the values \<open>A\<close>: it returns on them, a value equals itself,
  "less" one way is "greater" the other way, and "less" is transitive.\<close>

definition greater_by :: "'a CompareFn \<Rightarrow> 'a \<Rightarrow> 'a \<Rightarrow> bool" where
  "greater_by cmp e1 e2 = (case cmp e1 e2 of Inl e \<Rightarrow> False | Inr c \<Rightarrow> c > 0)"

definition valid_cmp_on :: "'a set \<Rightarrow> 'a CompareFn \<Rightarrow> bool" where
  "valid_cmp_on A cmp \<longleftrightarrow>
     (\<forall>x\<in>A. \<forall>y\<in>A. \<not> isl (cmp x y)) \<and>
     (\<forall>x\<in>A. cmp x x = Inr 0) \<and>
     (\<forall>x\<in>A. \<forall>y\<in>A. less_by cmp x y \<longrightarrow> greater_by cmp y x) \<and>
     (\<forall>x\<in>A. \<forall>y\<in>A. \<forall>z\<in>A. less_by cmp x y \<and> less_by cmp y z \<longrightarrow> less_by cmp x z)"

text \<open>The comparator orders the slots of a list as their indices do. This is what a valid
  comparator and the sorted invariant give together (lemma \<open>index_ordered_sorted\<close>).\<close>

definition index_ordered :: "'a CompareFn \<Rightarrow> 'a list \<Rightarrow> bool" where
  "index_ordered cmp xs \<longleftrightarrow>
     (\<forall>i<length xs. \<forall>j<length xs.
        \<exists>c. cmp (xs ! i) (xs ! j) = Inr c \<and> (c < 0 \<longleftrightarrow> i < j) \<and> (c = 0 \<longleftrightarrow> i = j))"

text \<open>The slots of \<open>xs\<close> that a bit vector selects, when its bit \<open>i\<close> stands for the first
  slot of \<open>xs\<close>: what the inner loop of \<open>cset_powerSet\<close> is meant to put into a subset.\<close>

fun pick :: "nat \<Rightarrow> 'a list \<Rightarrow> nat \<Rightarrow> 'a list" where
  "pick bit_vector [] i = []"
| "pick bit_vector (x # xs) i =
     (if bit bit_vector i then x # pick bit_vector xs (i + 1) else pick bit_vector xs (i + 1))"

text \<open>The state of \<open>cset_powerSet\<close> when the subsets for the bit vectors below \<open>k\<close> are
  made, in terms of the stores \<open>st0\<close> at the call and \<open>st\<close> now: the power set is the one
  new block of the outer store and holds the \<open>k\<close> pointers to the subsets, which are the new
  blocks of the inner store, in the order of their bit vectors.\<close>

definition powerSet_inv ::
  "(ptr, ('a, 'm) store) store \<Rightarrow> (ptr, ('a, 'm) store) store \<Rightarrow>
   ('a, 'm) CSetImplementation \<Rightarrow> nat \<Rightarrow> bool" where
  "powerSet_inv st0 st s k \<longleftrightarrow>
     length (heap st) = length (heap st0) + 1 \<and>
     mem (mem st) = mem (mem st0) \<and>
     length (heap (mem st)) = length (heap (mem st0)) + k \<and>
     take (length (heap (mem st0))) (heap (mem st)) = heap (mem st0) \<and>
     (\<forall>j<k. \<exists>sub. heap (mem st) ! (length (heap (mem st0)) + j) = Some sub \<and>
                elements sub = pick j (elements s) 0 \<and> elemsz sub = elemsz s \<and>
                cmp_fn sub = cmp_fn s) \<and>
     (\<exists>P. heap st ! length (heap st0) = Some P \<and> cmp_fn P = cset_compare \<and>
          length (elements P) = k \<and>
          set (elements P) = (\<lambda>j. Some (length (heap (mem st0)) + j)) ` {..<k})"

subsection \<open>Evaluation\<close>

text \<open>
  The facts that evaluate the operations on given sets and stores, and the sets of the
  tests as the operations build them.
\<close>

lemmas set_eval =
  add_search.simps add_scan.simps bsearch_loop.simps cset_add_def cset_remove_def
  cset_contains_def cset_clear_def bsearch_def n_elements_def nth_slot_def insert_elem_def
  check_resize_def RESIZE_FACTOR_def DEFAULT_CAPACITY_def word_le_nat_alt

lemmas store_eval =
  deref_def assign_def malloc_def free_def cset_create_def cset_delete_def cset_add_at_def
  cset_contains_at_def cset_union_def cset_intersect_def cset_difference_def
  cset_symmetricDifference_def

lemmas client_eval =
  int_set_def str_set_def compare_ints_def compare_strs_def cleanup_str_def print_str_def
  str_at_def

lemma create_int_set:
  "cset_create \<lparr>heap = [], mem = ()\<rparr> 4 10 (Some compare_ints) None (Some print_int)
     = Inr (Some 0, \<lparr>heap = [Some (int_set [])], mem = ()\<rparr>)"
  by (simp add: store_eval int_set_def)

lemma add_values_12345:
  "add_values () (int_set []) [1, 2, 3, 4, 5] = Inr (int_set [1, 2, 3, 4, 5])"
  by (simp add: set_eval client_eval)

lemma add_values_45:
  "add_values () (int_set []) [4, 5] = Inr (int_set [4, 5])"
  by (simp add: set_eval client_eval)

lemma add_values_hello:
  "add_values [Some ''hello''] (str_set []) [0] = Inr (str_set [0])"
  by (simp add: set_eval client_eval)

subsection \<open>cset_add: the insertion index\<close>

text \<open>
  As long as the comparator returns on the stored elements, both loops of \<open>cset_add\<close>
  read live slots only and the function returns. When no stored element compares equal
  to the new one, the first loop ends at an index between 0 and \<open>n_elements\<close> and the
  element is inserted at some index; when the new element is greater than all the stored
  ones, it is appended.
\<close>

lemma returns_iff: "\<not> isl r \<longleftrightarrow> (\<exists>v. r = Inr v)"
  by (cases r) simp_all

lemma check_resize_capacity: "\<exists>c. check_resize s = s\<lparr>capacity := c\<rparr>"
proof (cases "word_of_int (n_elements s) \<ge> capacity s - 1")
  case True
  then have "check_resize s = s\<lparr>capacity := capacity s * RESIZE_FACTOR\<rparr>"
    by (simp add: check_resize_def)
  then show ?thesis by blast
next
  case False
  then have "check_resize s = s\<lparr>capacity := capacity s\<rparr>" by (simp add: check_resize_def)
  then show ?thesis by blast
qed

lemma add_search_returns:
  assumes "\<forall>y\<in>set xs. \<not> isl (cmp elem y)"
    and "0 \<le> partial_sz"
    and "partial_sz div 2 \<le> index"
    and "index + partial_sz div 2 \<le> int (length xs)"
  shows "\<exists>r. add_search cmp elem xs partial_sz index = Inr r \<and>
           (\<forall>i. r = Some i \<longrightarrow> 0 \<le> i \<and> i \<le> int (length xs))"
  using assms
proof (induction cmp elem xs partial_sz index rule: add_search.induct)
  case (1 cmp elem xs partial_sz index)
  note unfold = add_search.simps [of cmp elem xs partial_sz index]
  show ?case
  proof (cases "partial_sz > 1")
    case False
    with "1.prems" show ?thesis by (subst unfold) (simp add: Let_def)
  next
    case True
    let ?p = "partial_sz div 2"
    from True "1.prems" have live: "0 \<le> index" "index < int (length xs)" by linarith+
    then have slot: "nth_slot xs index = Inr (xs ! nat index)" by (simp add: nth_slot_def)
    from live have "xs ! nat index \<in> set xs" by simp
    with "1.prems"(1) obtain c where c: "cmp elem (xs ! nat index) = Inr c"
      by (metis isl_def sum.collapse(2))
    from True have p0: "0 \<le> ?p" by simp
    have up: "?p div 2 \<le> index + ?p div 2" "index + ?p div 2 + ?p div 2 \<le> int (length xs)"
      using True "1.prems" live by linarith+
    have down: "?p div 2 \<le> index - ?p div 2" "index - ?p div 2 + ?p div 2 \<le> int (length xs)"
      using True "1.prems" live by linarith+
    consider "c = 0" | "c > 0" | "c < 0" by linarith
    then show ?thesis
    proof cases
      case 1
      with True slot c show ?thesis by (subst unfold) (simp add: Let_def)
    next
      case 2
      then have nz: "c \<noteq> 0" by simp
      from "1.IH"(1) [OF True slot c refl nz 2 "1.prems"(1) p0 up]
      show ?thesis using True slot c 2 by (subst unfold) (simp add: Let_def)
    next
      case 3
      then have nz: "c \<noteq> 0" and npos: "\<not> c > 0" by simp_all
      from "1.IH"(2) [OF True slot c refl nz npos "1.prems"(1) p0 down]
      show ?thesis using True slot c 3 by (subst unfold) (simp add: Let_def)
    qed
  qed
qed

lemma add_search_Some:
  assumes "\<forall>y\<in>set xs. \<exists>c. cmp elem y = Inr c \<and> c \<noteq> 0"
    and "0 \<le> partial_sz"
    and "partial_sz div 2 \<le> index"
    and "index + partial_sz div 2 \<le> int (length xs)"
  shows "\<exists>i. add_search cmp elem xs partial_sz index = Inr (Some i) \<and> 0 \<le> i \<and> i \<le> int (length xs)"
  using assms
proof (induction cmp elem xs partial_sz index rule: add_search.induct)
  case (1 cmp elem xs partial_sz index)
  note unfold = add_search.simps [of cmp elem xs partial_sz index]
  show ?case
  proof (cases "partial_sz > 1")
    case False
    with "1.prems" show ?thesis by (subst unfold) (simp add: Let_def) 
  next
    case True
    let ?p = "partial_sz div 2"
    from True "1.prems" have live: "0 \<le> index" "index < int (length xs)" by linarith+
    then have slot: "nth_slot xs index = Inr (xs ! nat index)" by (simp add: nth_slot_def)
    from live have "xs ! nat index \<in> set xs" by simp
    with "1.prems"(1) obtain c where c: "cmp elem (xs ! nat index) = Inr c" "c \<noteq> 0" by blast
    from True have p0: "0 \<le> ?p" by simp
    have up: "?p div 2 \<le> index + ?p div 2" "index + ?p div 2 + ?p div 2 \<le> int (length xs)"
      using True "1.prems" live by linarith+
    have down: "?p div 2 \<le> index - ?p div 2" "index - ?p div 2 + ?p div 2 \<le> int (length xs)"
      using True "1.prems" live by linarith+
    show ?thesis
    proof (cases "c > 0")
      case True
      from "1.IH"(1) [OF \<open>1 < partial_sz\<close> slot c(1) refl c(2) True "1.prems"(1) p0 up]
      show ?thesis using \<open>1 < partial_sz\<close> slot c True by (subst unfold) (simp add: Let_def)
    next
      case False
      from "1.IH"(2) [OF \<open>1 < partial_sz\<close> slot c(1) refl c(2) False "1.prems"(1) p0 down]
      show ?thesis using \<open>1 < partial_sz\<close> slot c False by (subst unfold) (simp add: Let_def)
    qed
  qed
qed

lemma add_scan_bounds:
  assumes "\<forall>y\<in>set xs. \<exists>c. cmp elem y = Inr c"
    and "0 \<le> index" and "index \<le> int (length xs)"
  shows "\<exists>j. add_scan cmp elem xs index = Inr j \<and> index \<le> j \<and> j \<le> int (length xs)"
  using assms
proof (induction cmp elem xs index rule: add_scan.induct)
  case (1 cmp elem xs index)
  note unfold = add_scan.simps [of cmp elem xs index]
  show ?case
  proof (cases "index < int (length xs)")
    case False
    with "1.prems" show ?thesis by (subst unfold) (simp add: Let_def)
  next
    case True
    with "1.prems" have slot: "nth_slot xs index = Inr (xs ! nat index)" by (simp add: nth_slot_def)
    from True "1.prems" have "xs ! nat index \<in> set xs" by simp
    with "1.prems"(1) obtain c where c: "cmp elem (xs ! nat index) = Inr c" by blast
    show ?thesis
    proof (cases "c > 0")
      case False
      with True slot c "1.prems" show ?thesis by (subst unfold) (simp add: Let_def)
    next
      case pos: True
      have "0 \<le> index + 1" "index + 1 \<le> int (length xs)" using True "1.prems" by linarith+
      from "1.IH" [OF True slot c pos "1.prems"(1) this]
      show ?thesis using True slot c pos by (subst unfold) (auto simp add: Let_def)
    qed
  qed
qed

lemma add_scan_end:
  assumes "\<forall>y\<in>set xs. \<exists>c. cmp elem y = Inr c \<and> c > 0"
    and "0 \<le> index" and "index \<le> int (length xs)"
  shows "add_scan cmp elem xs index = Inr (int (length xs))"
  using assms
proof (induction cmp elem xs index rule: add_scan.induct)
  case (1 cmp elem xs index)
  note unfold = add_scan.simps [of cmp elem xs index]
  show ?case
  proof (cases "index < int (length xs)")
    case False
    with "1.prems" show ?thesis by (subst unfold) (simp add: Let_def)
  next
    case True
    with "1.prems" have slot: "nth_slot xs index = Inr (xs ! nat index)" by (simp add: nth_slot_def)
    from True "1.prems" have "xs ! nat index \<in> set xs" by simp
    with "1.prems"(1) obtain c where c: "cmp elem (xs ! nat index) = Inr c" "c > 0" by blast
    have "0 \<le> index + 1" "index + 1 \<le> int (length xs)" using True "1.prems" by linarith+
    from "1.IH" [OF True slot c "1.prems"(1) this]
    show ?thesis using True slot c by (subst unfold) (simp add: Let_def)
  qed
qed

lemma cset_add_returns:
  assumes "\<forall>y\<in>set (elements s). \<not> isl (cmp_fn s m elem y)"
  shows "\<exists>b s'. cset_add m s elem = Inr (b, s') \<and>
           cmp_fn s' = cmp_fn s \<and> cleanup_fn s' = cleanup_fn s \<and> toString_fn s' = toString_fn s \<and>
           elemsz s' = elemsz s"
proof -
  let ?xs = "elements s" and ?cmp = "cmp_fn s m"
  have "\<exists>r. add_search ?cmp elem ?xs (n_elements s) (n_elements s div 2) = Inr r \<and>
           (\<forall>i. r = Some i \<longrightarrow> 0 \<le> i \<and> i \<le> int (length ?xs))"
    by (rule add_search_returns [where cmp = ?cmp and elem = elem, OF assms])
       (simp_all add: n_elements_def)
  then obtain r where r: "add_search ?cmp elem ?xs (n_elements s) (n_elements s div 2) = Inr r"
    "\<forall>i. r = Some i \<longrightarrow> 0 \<le> i \<and> i \<le> int (length ?xs)" by blast
  show ?thesis
  proof (cases r)
    case None
    with r show ?thesis by (auto simp add: cset_add_def)
  next
    case (Some i)
    let ?i = "if i = 1 then 0 else i"
    from assms have total: "\<forall>y\<in>set ?xs. \<exists>c. ?cmp elem y = Inr c"
      by (simp add: returns_iff)
    have "\<exists>j. add_scan ?cmp elem ?xs ?i = Inr j \<and> ?i \<le> j \<and> j \<le> int (length ?xs)"
      using r Some by (intro add_scan_bounds [where cmp = ?cmp and elem = elem, OF total]) auto
    then obtain j where "add_scan ?cmp elem ?xs ?i = Inr j" by blast
    with r Some show ?thesis
      by (auto simp add: cset_add_def insert_elem_def check_resize_def)
  qed
qed

lemma cset_add_inserts:
  assumes "\<forall>y\<in>set (elements s). \<exists>c. cmp_fn s m elem y = Inr c \<and> c \<noteq> 0"
  shows "\<exists>i\<le>length (elements s). cset_add m s elem =
           Inr (True, (check_resize s)\<lparr>elements := take i (elements s) @ elem # drop i (elements s)\<rparr>)"
proof -
  let ?xs = "elements s" and ?cmp = "cmp_fn s m"
  have "\<exists>i. add_search ?cmp elem ?xs (n_elements s) (n_elements s div 2) = Inr (Some i)
            \<and> 0 \<le> i \<and> i \<le> int (length ?xs)"
    by (rule add_search_Some [where cmp = ?cmp and elem = elem, OF assms]) (simp_all add: n_elements_def)
  then obtain i where i: "add_search ?cmp elem ?xs (n_elements s) (n_elements s div 2) = Inr (Some i)"
    "0 \<le> i" "i \<le> int (length ?xs)" by blast
  let ?i = "if i = 1 then 0 else i"
  from assms have total: "\<forall>y\<in>set ?xs. \<exists>c. ?cmp elem y = Inr c" by blast
  have "\<exists>j. add_scan ?cmp elem ?xs ?i = Inr j \<and> ?i \<le> j \<and> j \<le> int (length ?xs)"
    using i by (intro add_scan_bounds [where cmp = ?cmp and elem = elem, OF total]) auto
  then obtain j where j: "add_scan ?cmp elem ?xs ?i = Inr j" "?i \<le> j" "j \<le> int (length ?xs)"
    by blast
  from i j have "nat j \<le> length ?xs" by (auto split: if_splits)
  moreover from i j have "cset_add m s elem =
      Inr (True, (check_resize s)\<lparr>elements := take (nat j) ?xs @ elem # drop (nat j) ?xs\<rparr>)"
    by (simp add: cset_add_def insert_elem_def check_resize_def)
  ultimately show ?thesis by blast
qed

lemma cset_add_appends:
  assumes "\<forall>y\<in>set (elements s). \<exists>c. cmp_fn s m elem y = Inr c \<and> c > 0"
  shows "cset_add m s elem = Inr (True, (check_resize s)\<lparr>elements := elements s @ [elem]\<rparr>)"
proof -
  let ?xs = "elements s" and ?cmp = "cmp_fn s m"
  from assms have nz: "\<forall>y\<in>set ?xs. \<exists>c. ?cmp elem y = Inr c \<and> c \<noteq> 0" by fastforce
  have "\<exists>i. add_search ?cmp elem ?xs (n_elements s) (n_elements s div 2) = Inr (Some i)
            \<and> 0 \<le> i \<and> i \<le> int (length ?xs)"
    by (rule add_search_Some [where cmp = ?cmp and elem = elem, OF nz]) (simp_all add: n_elements_def)
  then obtain i where i: "add_search ?cmp elem ?xs (n_elements s) (n_elements s div 2) = Inr (Some i)"
    "0 \<le> i" "i \<le> int (length ?xs)" by blast
  let ?i = "if i = 1 then 0 else i"
  have "add_scan ?cmp elem ?xs ?i = Inr (int (length ?xs))"
    using i by (intro add_scan_end [where cmp = ?cmp and elem = elem, OF assms]) auto
  with i show ?thesis
    by (simp add: cset_add_def insert_elem_def check_resize_def)
qed

subsection \<open>cset_add and equal elements\<close>

text \<open>
  Claim C1: adding a value that compares equal to a stored element returns false and leaves
  the set unchanged; in particular the size does not change.

  The code returns false only when the first loop of \<open>cset_add\<close> meets the equal
  element. The scan after it stops at an element that is not smaller than the new one
  and inserts there, without a test for the result 0. On the set \<open>{5}\<close>, built by one
  \<open>cset_add\<close>, the first loop does not run at all: adding 5 again returns true and the
  set holds 5 twice.
\<close>

theorem cset_add_accepts_equal_element:
  "cset_add () (int_set []) 5 = Inr (True, int_set [5]) \<and>
   cset_add () (int_set [5]) 5 = Inr (True, int_set [5, 5])"
  by (simp add: set_eval client_eval)

subsection \<open>The order of the slots\<close>

text \<open>
  Claim C5: after any sequence of \<open>cset_add\<close> and \<open>cset_remove\<close> on a created set, with a
  valid comparator, each stored element is less than the next one.

  The first loop of \<open>cset_add\<close> can end above the place of the new element, and the scan
  only moves up. Adding 1, 2, 3, 4, 5, 6 and then 0 to a new set leaves 0 in slot 2, after
  1 and 2.
\<close>

theorem cset_add_breaks_order:
  "add_values () (int_set []) [1, 2, 3, 4, 5, 6, 0] = Inr (int_set [1, 2, 0, 3, 4, 5, 6]) \<and>
   \<not> strictly_sorted () (int_set [1, 2, 0, 3, 4, 5, 6])"
  by (simp add: set_eval client_eval strictly_sorted_def less_by_def)

subsection \<open>bsearch, cset_contains and cset_remove\<close>

text \<open>
  On a sorted set the binary search finds every stored element, at its index, and
  \<open>cset_remove\<close> removes that slot. Sorted or not, a value that compares equal to no stored
  element is not found, and \<open>cset_remove\<close> returns false and leaves the set as it is.
\<close>

lemma index_ordered_sorted:
  assumes valid: "valid_cmp_on (set xs) cmp" and sorted: "successively (less_by cmp) xs"
  shows "index_ordered cmp xs"
proof -
  from valid have trans: "\<And>x y z. x \<in> set xs \<Longrightarrow> y \<in> set xs \<Longrightarrow> z \<in> set xs \<Longrightarrow>
      less_by cmp x y \<Longrightarrow> less_by cmp y z \<Longrightarrow> less_by cmp x z"
    unfolding valid_cmp_on_def by blast
  from sorted have sw: "sorted_wrt (less_by cmp) xs"
    using successively_iff_sorted_wrt_strong [of xs "less_by cmp"] trans by blast
  have "\<exists>c. cmp (xs ! i) (xs ! j) = Inr c \<and> (c < 0 \<longleftrightarrow> i < j) \<and> (c = 0 \<longleftrightarrow> i = j)"
    if i: "i < length xs" and j: "j < length xs" for i j
  proof -
    from i j have mem: "xs ! i \<in> set xs" "xs ! j \<in> set xs" by simp_all
    consider "i < j" | "i = j" | "j < i" by linarith
    then show ?thesis
    proof cases
      case 1
      with sw j have "less_by cmp (xs ! i) (xs ! j)" by (simp add: sorted_wrt_nth_less)
      with 1 show ?thesis by (auto simp: less_by_def split: sum.splits)
    next
      case 2
      with valid mem show ?thesis by (simp add: valid_cmp_on_def)
    next
      case 3
      with sw i have "less_by cmp (xs ! j) (xs ! i)" by (simp add: sorted_wrt_nth_less)
      with valid mem have "greater_by cmp (xs ! i) (xs ! j)"
        unfolding valid_cmp_on_def by blast
      with 3 show ?thesis by (auto simp: greater_by_def split: sum.splits)
    qed
  qed
  then show ?thesis by (simp add: index_ordered_def)
qed

lemma bsearch_loop_finds:
  assumes "index_ordered cmp xs" and "l \<le> k" and "k < u" and "u \<le> length xs"
  shows "bsearch_loop cmp (xs ! k) xs l u = Inr (Some k)"
  using assms
proof (induction cmp "xs ! k" xs l u rule: bsearch_loop.induct)
  case (1 cmp xs l u)
  note unfold = bsearch_loop.simps [of cmp "xs ! k" xs l u]
  let ?idx = "(l + u) div 2"
  from "1.prems" have lu: "l < u" and idx: "l \<le> ?idx" "?idx < u" "?idx < length xs" by linarith+
  then have slot: "nth_slot xs (int ?idx) = Inr (xs ! ?idx)" by (simp add: nth_slot_def)
  from "1.prems" have kl: "k < length xs" by linarith
  from "1.prems"(1) [unfolded index_ordered_def, rule_format, OF kl idx(3)]
  obtain c where c: "cmp (xs ! k) (xs ! ?idx) = Inr c"
    "c < 0 \<longleftrightarrow> k < ?idx" "c = 0 \<longleftrightarrow> k = ?idx"
    by blast
  consider "c < 0" | "c > 0" | "c = 0" by linarith
  then show ?case
  proof cases
    case 1
    with c have "k < ?idx" by simp
    from "1.hyps"(1) [OF lu refl slot c(1) 1 "1.prems"(1,2) this] idx "1.prems"
    show ?thesis using lu slot c 1 by (subst unfold) (simp add: Let_def)
  next
    case 2
    with c have "?idx + 1 \<le> k" by linarith
    from "1.hyps"(2) [OF lu refl slot c(1) _ 2 "1.prems"(1) this "1.prems"(3,4)] 2
    show ?thesis using lu slot c 2 by (subst unfold) (simp add: Let_def)
  next
    case 3
    with c lu slot show ?thesis by (subst unfold) (simp add: Let_def)
  qed
qed

lemma bsearch_loop_returns:
  assumes "\<forall>y\<in>set xs. \<not> isl (cmp key y)" and "u \<le> length xs"
  shows "\<not> isl (bsearch_loop cmp key xs l u)"
  using assms
proof (induction cmp key xs l u rule: bsearch_loop.induct)
  case (1 cmp key xs l u)
  note unfold = bsearch_loop.simps [of cmp key xs l u]
  show ?case
  proof (cases "l < u")
    case False
    then show ?thesis by (subst unfold) simp
  next
    case True
    let ?idx = "(l + u) div 2"
    from True "1.prems" have idx: "?idx < u" "?idx < length xs" by linarith+
    then have slot: "nth_slot xs (int ?idx) = Inr (xs ! ?idx)" by (simp add: nth_slot_def)
    from idx have "xs ! ?idx \<in> set xs" by simp
    with "1.prems"(1) obtain c where c: "cmp key (xs ! ?idx) = Inr c"
      by (metis isl_def sum.collapse(2))
    from idx "1.prems" have le: "?idx \<le> length xs" by linarith
    consider "c < 0" | "c > 0" | "c = 0" by linarith
    then show ?thesis
    proof cases
      case 1
      from "1.IH"(1) [OF True refl slot c 1 "1.prems"(1) le]
      show ?thesis using True slot c 1 by (subst unfold) (simp add: Let_def)
    next
      case 2
      then have n: "\<not> c < 0" by simp
      from "1.IH"(2) [OF True refl slot c n 2 "1.prems"]
      show ?thesis using True slot c 2 by (subst unfold) (simp add: Let_def)
    next
      case 3
      with True slot c show ?thesis by (subst unfold) (simp add: Let_def)
    qed
  qed
qed

lemma bsearch_loop_absent:
  assumes "\<forall>y\<in>set xs. \<exists>c. cmp key y = Inr c \<and> c \<noteq> 0" and "u \<le> length xs"
  shows "bsearch_loop cmp key xs l u = Inr None"
  using assms
proof (induction cmp key xs l u rule: bsearch_loop.induct)
  case (1 cmp key xs l u)
  note unfold = bsearch_loop.simps [of cmp key xs l u]
  show ?case
  proof (cases "l < u")
    case False
    then show ?thesis by (subst unfold) simp
  next
    case True
    let ?idx = "(l + u) div 2"
    from True "1.prems" have idx: "?idx < u" "?idx < length xs" by linarith+
    then have slot: "nth_slot xs (int ?idx) = Inr (xs ! ?idx)" by (simp add: nth_slot_def)
    from idx have "xs ! ?idx \<in> set xs" by simp
    with "1.prems"(1) obtain c where c: "cmp key (xs ! ?idx) = Inr c" "c \<noteq> 0" by blast
    from idx "1.prems" have le: "?idx \<le> length xs" by linarith
    show ?thesis
    proof (cases "c < 0")
      case True
      from "1.IH"(1) [OF \<open>l < u\<close> refl slot c(1) True "1.prems"(1) le]
      show ?thesis using \<open>l < u\<close> slot c True by (subst unfold) (simp add: Let_def)
    next
      case False
      with c have pos: "c > 0" by simp
      from "1.IH"(2) [OF \<open>l < u\<close> refl slot c(1) False pos "1.prems"]
      show ?thesis using \<open>l < u\<close> slot c False by (subst unfold) (simp add: Let_def)
    qed
  qed
qed

lemma cset_contains_stored:
  assumes "index_ordered (cmp_fn s m) (elements s)" and "x \<in> set (elements s)"
  shows "cset_contains m s x = Inr True"
proof -
  from assms(2) obtain k where "k < length (elements s)" "x = elements s ! k"
    by (auto simp: in_set_conv_nth)
  with bsearch_loop_finds [OF assms(1), of 0 k "length (elements s)"]
  show ?thesis by (simp add: cset_contains_def bsearch_def)
qed

lemma cset_contains_returns:
  assumes "\<forall>y\<in>set (elements s). \<not> isl (cmp_fn s m elem y)"
  shows "\<exists>b. cset_contains m s elem = Inr b"
proof -
  from bsearch_loop_returns [where cmp = "cmp_fn s m" and key = elem, OF assms, of "length (elements s)" 0]
  obtain found where "bsearch (cmp_fn s m) elem (elements s) = Inr found"
    by (auto simp: bsearch_def returns_iff)
  then show ?thesis by (simp add: cset_contains_def)
qed

lemma cset_remove_stored:
  assumes "index_ordered (cmp_fn s m) (elements s)" and "k < length (elements s)"
  shows "cset_remove m s (elements s ! k)
           = Inr (True, s\<lparr>elements := take k (elements s) @ drop (k + 1) (elements s)\<rparr>)"
  using bsearch_loop_finds [OF assms(1), of 0 k "length (elements s)"] assms(2)
  by (simp add: cset_remove_def bsearch_def)

lemma cset_remove_absent:
  assumes "\<forall>y\<in>set (elements s). \<exists>c. cmp_fn s m elem y = Inr c \<and> c \<noteq> 0"
  shows "cset_remove m s elem = Inr (False, s)"
  using bsearch_loop_absent [where cmp = "cmp_fn s m" and key = elem, OF assms, of "length (elements s)" 0]
  by (simp add: cset_remove_def bsearch_def)

subsection \<open>Adding, removing and looking up\<close>

text \<open>
  Claim C6: right after \<open>cset_add(set, x)\<close>, \<open>cset_contains(set, x)\<close> is true, and right
  after \<open>cset_remove(set, x)\<close> it is false.

  Adding 5 twice to a new set stores it twice (see C1); \<open>cset_remove\<close> then removes one
  of the two slots and \<open>cset_contains\<close> still finds the other.
\<close>

theorem cset_contains_after_remove:
  "add_values () (int_set []) [5, 5] = Inr (int_set [5, 5]) \<and>
   cset_remove () (int_set [5, 5]) 5 = Inr (True, int_set [5]) \<and>
   cset_contains () (int_set [5]) 5 = Inr True"
  by (simp add: set_eval client_eval)

text \<open>
  The other half fails as well: the 0 that \<open>cset_add\<close> puts after 1 and 2 (see C5) is
  not found by the binary search.
\<close>

lemma cset_contains_after_add:
  "cset_add () (int_set [1, 2, 3, 4, 5, 6]) 0 = Inr (True, int_set [1, 2, 0, 3, 4, 5, 6]) \<and>
   cset_contains () (int_set [1, 2, 0, 3, 4, 5, 6]) 0 = Inr False"
  by (simp add: set_eval client_eval)

subsection \<open>cset_remove and the cleanup function\<close>

text \<open>
  Claim C4: \<open>cset_remove\<close> of a stored value calls the cleanup function (when there is
  one) on the stored slot, moves the later slots down by one, decrements the count and
  returns true; for a value that is not stored it returns false and changes nothing.

  \<open>cset_remove\<close> never calls \<open>cleanup_fn\<close>. For a set of heap-allocated strings with
  \<open>cleanup_str\<close>, removing the only element empties the set and the string stays
  allocated; \<open>cset_clear\<close> on the same set frees it. The rest of the claim holds on
  sorted sets (lemmas \<open>cset_remove_stored\<close>, \<open>cset_remove_absent\<close>).
\<close>

theorem cset_remove_skips_cleanup:
  "cset_remove [Some ''hello''] (str_set [0]) 0 = Inr (True, str_set []) \<and>
   cset_clear [Some ''hello''] (str_set [0]) = Inr (str_set [], [None])"
  by (simp add: set_eval client_eval)

subsection \<open>The store\<close>

lemma store_sel [simp]:
  "heap (st\<lparr>mem := x\<rparr>) = heap st"
  "mem (st\<lparr>mem := x\<rparr>) = x"
  "heap (st\<lparr>heap := h\<rparr>) = h"
  "mem (st\<lparr>heap := h\<rparr>) = mem st"
  by simp_all

lemma deref_not_null: "deref st p = Inr s \<Longrightarrow> p \<noteq> None"
  by (cases p) (simp_all add: deref_def)

lemma deref_live: "deref st (Some a) = Inr s \<Longrightarrow> a < length (heap st) \<and> heap st ! a = Some s"
  by (auto simp: deref_def split: if_splits option.splits)

lemma deref_heap: "a < length (heap st) \<Longrightarrow> heap st ! a = Some s \<Longrightarrow> deref st (Some a) = Inr s"
  by (simp add: deref_def)

lemma deref_new:
  "a = length (heap st) \<Longrightarrow> deref (st\<lparr>heap := heap st @ [Some s]\<rparr>) (Some a) = Inr s"
  by (simp add: deref_def)

lemma deref_old:
  "a < length (heap st) \<Longrightarrow> deref (st\<lparr>heap := heap st @ [x]\<rparr>) (Some a) = deref st (Some a)"
  by (simp add: deref_def nth_append)

lemma deref_assign_same:
  "a < length (heap st) \<Longrightarrow> deref (assign st a s) (Some a) = Inr s"
  by (simp add: deref_def assign_def)

lemma deref_assign_other:
  "a \<noteq> b \<Longrightarrow> deref (assign st a s) (Some b) = deref st (Some b)"
  by (simp add: deref_def assign_def)

lemma heap_assign: "heap (assign st a s) = (heap st)[a := Some s]"
  by (simp add: assign_def)

lemma mem_assign: "mem (assign st a s) = mem st"
  by (simp add: assign_def)

lemma assign_assign: "assign (assign st a s) a s' = assign st a s'"
  by (simp add: assign_def)

lemma assign_new:
  "heap (assign (st\<lparr>heap := heap st @ [x]\<rparr>) (length (heap st)) s) = heap st @ [Some s]"
  "mem (assign (st\<lparr>heap := heap st @ [x]\<rparr>) (length (heap st)) s) = mem st"
  by (simp_all add: assign_def)

lemma cset_create_fresh:
  "cset_create st e h (Some c) cl ts =
     Inr (Some (length (heap st)),
          st\<lparr>heap := heap st @ [Some \<lparr>elements = [], elemsz = e,
                 capacity = (if h = 0 then DEFAULT_CAPACITY else h),
                 cmp_fn = c, cleanup_fn = cl, toString_fn = ts\<rparr>]\<rparr>)"
  by (simp add: cset_create_def malloc_def)

lemma same_kind_refl: "same_kind s s"
  by (simp add: same_kind_def)

lemma same_kind_trans:
  assumes "same_kind s s1" and "same_kind s1 s2"
  shows "same_kind s s2"
  using assms unfolding same_kind_def by metis

lemma cset_add_kind:
  assumes "\<forall>y\<in>set (elements s). \<not> isl (cmp_fn s m elem y)"
  shows "\<exists>b s'. cset_add m s elem = Inr (b, s') \<and> same_kind s s'"
  using cset_add_returns [OF assms] unfolding same_kind_def by blast

lemma cset_add_at_returns:
  assumes "deref st (Some u) = Inr s" and "\<forall>x y. \<not> isl (cmp_fn s (mem st) x y)"
  shows "\<exists>b s'. cset_add_at st (Some u) elem = Inr (b, assign st u s') \<and> same_kind s s'"
proof -
  from assms(2) have "\<forall>y\<in>set (elements s). \<not> isl (cmp_fn s (mem st) elem y)" by simp
  from cset_add_kind [OF this] obtain b s' where
    add: "cset_add (mem st) s elem = Inr (b, s')" and kind: "same_kind s s'" by blast
  from add assms(1) have "cset_add_at st (Some u) elem = Inr (b, assign st u s')"
    by (simp add: cset_add_at_def)
  with kind show ?thesis by blast
qed

lemma cset_add_at_inserts:
  assumes "deref st (Some a) = Inr s"
    and "\<forall>y\<in>set (elements s). \<exists>c. cmp_fn s (mem st) elem y = Inr c \<and> c \<noteq> 0"
  shows "\<exists>i c. i \<le> length (elements s) \<and> cset_add_at st (Some a) elem
           = Inr (True, assign st a
                (s\<lparr>capacity := c, elements := take i (elements s) @ elem # drop i (elements s)\<rparr>))"
proof -
  obtain c where c: "check_resize s = s\<lparr>capacity := c\<rparr>"
    using check_resize_capacity by blast
  from cset_add_inserts [OF assms(2)] obtain i where i: "i \<le> length (elements s)"
    "cset_add (mem st) s elem =
       Inr (True, (check_resize s)\<lparr>elements := take i (elements s) @ elem # drop i (elements s)\<rparr>)"
    by blast
  with c assms(1) have "cset_add_at st (Some a) elem
           = Inr (True, assign st a
                (s\<lparr>capacity := c, elements := take i (elements s) @ elem # drop i (elements s)\<rparr>))"
    by (simp add: cset_add_at_def)
  with i show ?thesis by blast
qed

lemma cset_add_at_appends:
  assumes "deref st (Some a) = Inr s"
    and "\<forall>y\<in>set (elements s). \<exists>c. cmp_fn s (mem st) elem y = Inr c \<and> c > 0"
  shows "\<exists>c. cset_add_at st (Some a) elem
           = Inr (True, assign st a (s\<lparr>capacity := c, elements := elements s @ [elem]\<rparr>))"
proof -
  obtain c where c: "check_resize s = s\<lparr>capacity := c\<rparr>"
    using check_resize_capacity by blast
  from cset_add_appends [OF assms(2)] c assms(1)
  have "cset_add_at st (Some a) elem
           = Inr (True, assign st a (s\<lparr>capacity := c, elements := elements s @ [elem]\<rparr>))"
    by (simp add: cset_add_at_def)
  then show ?thesis by blast
qed

lemma add_each_returns:
  assumes "deref st (Some u) = Inr s" and "\<forall>x y. \<not> isl (cmp_fn s (mem st) x y)"
  shows "\<exists>s'. add_each st (Some u) xs = Inr (assign st u s') \<and> same_kind s s'"
  using assms
proof (induction xs arbitrary: st s)
  case Nil
  from deref_live [OF Nil(1)] have "assign st u s = st"
    by (simp add: assign_def list_update_same_conv)
  then have "add_each st (Some u) [] = Inr (assign st u s)" by simp
  then show ?case using same_kind_refl by blast
next
  case (Cons x xs)
  from cset_add_at_returns [OF Cons.prems] obtain b s1 where
    add: "cset_add_at st (Some u) x = Inr (b, assign st u s1)" and s1: "same_kind s s1"
    by blast
  from deref_live [OF Cons.prems(1)] have d: "deref (assign st u s1) (Some u) = Inr s1"
    by (simp add: deref_assign_same)
  from s1 have "cmp_fn s1 = cmp_fn s" by (simp add: same_kind_def)
  with Cons.prems(2) have "\<forall>x y. \<not> isl (cmp_fn s1 (mem (assign st u s1)) x y)"
    by (simp add: mem_assign)
  from Cons.IH [OF d this] obtain s' where
    rest: "add_each (assign st u s1) (Some u) xs = Inr (assign (assign st u s1) u s')"
    and s': "same_kind s1 s'" by blast
  from s1 s' have "same_kind s s'" by (rule same_kind_trans)
  moreover from add rest have "add_each st (Some u) (x # xs) = Inr (assign st u s')"
    by (simp add: assign_assign)
  ultimately show ?case by blast
qed

lemma select_each_returns:
  assumes "deref st (Some u) = Inr s" and "\<forall>x y. \<not> isl (cmp_fn s (mem st) x y)"
    and "deref st (Some b) = Inr s2" and "\<forall>x y. \<not> isl (cmp_fn s2 (mem st) x y)"
    and "b \<noteq> u"
  shows "\<exists>s'. select_each keep st (Some b) (Some u) xs = Inr (assign st u s') \<and>
           same_kind s s'"
  using assms(1,2,3,4)
proof (induction xs arbitrary: st s)
  case Nil
  from deref_live [OF Nil(1)] have "assign st u s = st"
    by (simp add: assign_def list_update_same_conv)
  then have "select_each keep st (Some b) (Some u) [] = Inr (assign st u s)" by simp
  then show ?case using same_kind_refl by blast
next
  case (Cons x xs)
  from Cons.prems(4) have "\<forall>y\<in>set (elements s2). \<not> isl (cmp_fn s2 (mem st) x y)" by simp
  from cset_contains_returns [OF this] Cons.prems(3)
  obtain c where c: "cset_contains_at st (Some b) x = Inr c"
    by (auto simp add: cset_contains_at_def)
  show ?case
  proof (cases "c = keep")
    case False
    from Cons.IH [OF Cons.prems] c False show ?thesis by simp
  next
    case True
    from cset_add_at_returns [OF Cons.prems(1,2)] obtain r s1 where
      add: "cset_add_at st (Some u) x = Inr (r, assign st u s1)" and s1: "same_kind s s1"
      by blast
    let ?st = "assign st u s1"
    from deref_live [OF Cons.prems(1)] have d: "deref ?st (Some u) = Inr s1"
      by (simp add: deref_assign_same)
    from s1 have "cmp_fn s1 = cmp_fn s" by (simp add: same_kind_def)
    with Cons.prems(2) have t1: "\<forall>x y. \<not> isl (cmp_fn s1 (mem ?st) x y)"
      by (simp add: mem_assign)
    from assms(5) Cons.prems(3) have d2: "deref ?st (Some b) = Inr s2"
      by (simp add: deref_assign_other)
    from Cons.prems(4) have t2: "\<forall>x y. \<not> isl (cmp_fn s2 (mem ?st) x y)"
      by (simp add: mem_assign)
    from Cons.IH [OF d t1 d2 t2] obtain s' where
      rest: "select_each keep ?st (Some b) (Some u) xs = Inr (assign ?st u s')"
      and s': "same_kind s1 s'"
      by blast
    from s1 s' have "same_kind s s'" by (rule same_kind_trans)
    moreover from add rest c True
    have "select_each keep st (Some b) (Some u) (x # xs) = Inr (assign st u s')"
      by (simp add: assign_assign)
    ultimately show ?thesis by blast
  qed
qed

subsection \<open>cset_intersect\<close>

text \<open>
  Claim C2: for two sets of the same element size, \<open>cset_intersect(a, b)\<close> returns a new
  set with exactly the values that are in both, whichever operand is smaller.

  The loop runs over the first \<open>min(|a|, |b|)\<close> slots of \<open>a\<close>, not over the smaller
  set. With \<open>a = {1, 2, 3, 4, 5}\<close> at address 0 and \<open>b = {4, 5}\<close> at address 1 it looks
  at 1 and 2 only, and the result is empty.
\<close>

theorem cset_intersect_smaller_second_operand:
  "cset_intersect \<lparr>heap = [Some (int_set [1, 2, 3, 4, 5]), Some (int_set [4, 5])], mem = ()\<rparr>
     (Some 0) (Some 1)
   = Inr (Some 2, \<lparr>heap = [Some (int_set [1, 2, 3, 4, 5]), Some (int_set [4, 5]),
                            Some (int_set [])], mem = ()\<rparr>)"
  by (simp add: set_eval store_eval client_eval)

text \<open>
  With the operands exchanged, and for the two sets of five elements of the
  specification, the result is \<open>{4, 5}\<close>.
\<close>

lemma cset_intersect_smaller_first_operand:
  "cset_intersect \<lparr>heap = [Some (int_set [1, 2, 3, 4, 5]), Some (int_set [4, 5])], mem = ()\<rparr>
     (Some 1) (Some 0)
   = Inr (Some 2, \<lparr>heap = [Some (int_set [1, 2, 3, 4, 5]), Some (int_set [4, 5]),
                            Some (int_set [4, 5])], mem = ()\<rparr>)"
  by (simp add: set_eval store_eval client_eval)

lemma cset_intersect_same_size:
  "cset_intersect \<lparr>heap = [Some (int_set [1, 2, 3, 4, 5]), Some (int_set [4, 5, 6, 7, 8])],
                    mem = ()\<rparr> (Some 0) (Some 1)
   = Inr (Some 2, \<lparr>heap = [Some (int_set [1, 2, 3, 4, 5]), Some (int_set [4, 5, 6, 7, 8]),
                            Some (int_set [4, 5])], mem = ()\<rparr>)"
  by (simp add: set_eval store_eval client_eval)

subsection \<open>NULL operands\<close>

lemma cset_union_null:
  "cset_union st None set2 = Inr (None, st)" "cset_union st set1 None = Inr (None, st)"
  by (simp_all add: cset_union_def)

lemma cset_intersect_null:
  "cset_intersect st None set2 = Inr (None, st)" "cset_intersect st set1 None = Inr (None, st)"
  by (simp_all add: cset_intersect_def)

lemma cset_difference_null:
  "cset_difference st None set2 = Inr (None, st)" "cset_difference st set1 None = Inr (None, st)"
  by (simp_all add: cset_difference_def)

lemma cset_symmetricDifference_null_second:
  "cset_symmetricDifference st set1 None = Inl NullDereference"
  by (simp add: cset_symmetricDifference_def cset_difference_null cset_union_null
      cset_delete_def deref_def)

text \<open>
  Claim C3: \<open>cset_union\<close>, \<open>cset_intersect\<close>, \<open>cset_difference\<close> and
  \<open>cset_symmetricDifference\<close> return NULL when an operand is NULL, and do not crash.

  The first three do (lemmas \<open>cset_union_null\<close>, \<open>cset_intersect_null\<close>,
  \<open>cset_difference_null\<close>). \<open>cset_symmetricDifference\<close> gets NULL from both calls of
  \<open>cset_difference\<close> and from \<open>cset_union\<close>, and then calls \<open>cset_delete\<close> on the first
  NULL, which reads \<open>set->cleanup_fn\<close>.
\<close>

theorem cset_symmetricDifference_null_operand:
  "cset_symmetricDifference st None set2 = Inl NullDereference"
  by (simp add: cset_symmetricDifference_def cset_difference_null cset_union_null
      cset_delete_def deref_def)

subsection \<open>The operands of the set operations\<close>

text \<open>
  \<open>cset_union\<close>, \<open>cset_intersect\<close> and \<open>cset_difference\<close> on two sets of the same
  element size, with comparators that return: the result is a new block with the callbacks
  of the first operand, every block that was there before is as it was, and so is the
  client's memory.
\<close>

lemma cset_union_frame:
  assumes "deref st set1 = Inr s1" and "deref st set2 = Inr s2"
    and "elemsz s1 = elemsz s2"
    and "\<forall>x y. \<not> isl (cmp_fn s1 (mem st) x y)"
  shows "\<exists>st' u. cset_union st set1 set2 = Inr (Some (length (heap st)), st') \<and>
           heap st' = heap st @ [Some u] \<and> mem st' = mem st \<and> same_kind s1 u"
proof -
  from assms(1,2) have nn: "set1 \<noteq> None" "set2 \<noteq> None" by (simp_all add: deref_not_null)
  define new where "new = \<lparr>elements = [], elemsz = elemsz s1,
       capacity = (if capacity s1 = 0 then DEFAULT_CAPACITY else capacity s1),
       cmp_fn = cmp_fn s1, cleanup_fn = cleanup_fn s1, toString_fn = toString_fn s1\<rparr>"
  define st1 where "st1 = st\<lparr>heap := heap st @ [Some new]\<rparr>"
  let ?u = "length (heap st)"
  have kind: "same_kind s1 new" by (simp add: same_kind_def new_def)
  have create: "cset_create st (elemsz s1) (capacity s1) (Some (cmp_fn s1)) (cleanup_fn s1)
      (toString_fn s1) = Inr (Some ?u, st1)"
    by (simp add: cset_create_fresh st1_def new_def)
  have d: "deref st1 (Some ?u) = Inr new" unfolding st1_def by (intro deref_new) simp
  have t: "\<forall>x y. \<not> isl (cmp_fn new (mem st1) x y)" using assms(4) by (simp add: new_def st1_def)
  from add_each_returns [OF d t, of "elements s1"] obtain u1 where
    a1: "add_each st1 (Some ?u) (elements s1) = Inr (assign st1 ?u u1)" and u1: "same_kind new u1"
    by blast
  have d1: "deref (assign st1 ?u u1) (Some ?u) = Inr u1"
    by (intro deref_assign_same) (simp add: st1_def)
  from u1 have "cmp_fn u1 = cmp_fn new" by (simp add: same_kind_def)
  with t have t1: "\<forall>x y. \<not> isl (cmp_fn u1 (mem (assign st1 ?u u1)) x y)"
    by (simp add: mem_assign)
  from add_each_returns [OF d1 t1, of "elements s2"] obtain u2 where
    a2: "add_each (assign st1 ?u u1) (Some ?u) (elements s2) = Inr (assign st1 ?u u2)"
    and u2: "same_kind u1 u2"
    by (auto simp add: assign_assign)
  have "heap (assign st1 ?u u2) = heap st @ [Some u2]" "mem (assign st1 ?u u2) = mem st"
    unfolding st1_def by (rule assign_new)+
  moreover have "cset_union st set1 set2 = Inr (Some ?u, assign st1 ?u u2)"
    using nn assms(1,2,3) create a1 a2 by (simp add: cset_union_def)
  moreover have "same_kind s1 u2" using kind u1 u2 by (blast intro: same_kind_trans)
  ultimately show ?thesis by blast
qed

lemma cset_difference_frame:
  assumes "deref st set1 = Inr s1" and "deref st set2 = Inr s2"
    and "elemsz s1 = elemsz s2"
    and "\<forall>x y. \<not> isl (cmp_fn s1 (mem st) x y)"
    and "\<forall>x y. \<not> isl (cmp_fn s2 (mem st) x y)"
  shows "\<exists>st' u. cset_difference st set1 set2 = Inr (Some (length (heap st)), st') \<and>
           heap st' = heap st @ [Some u] \<and> mem st' = mem st \<and> same_kind s1 u"
proof -
  from assms(1,2) have nn: "set1 \<noteq> None" "set2 \<noteq> None" by (simp_all add: deref_not_null)
  then obtain b where b: "set2 = Some b" by auto
  with assms(2) have lt: "b < length (heap st)" by (simp add: deref_live)
  define new where "new = \<lparr>elements = [], elemsz = elemsz s1,
       capacity = (if capacity s1 = 0 then DEFAULT_CAPACITY else capacity s1),
       cmp_fn = cmp_fn s1, cleanup_fn = cleanup_fn s1, toString_fn = toString_fn s1\<rparr>"
  define st1 where "st1 = st\<lparr>heap := heap st @ [Some new]\<rparr>"
  let ?u = "length (heap st)"
  have kind: "same_kind s1 new" by (simp add: same_kind_def new_def)
  have create: "cset_create st (elemsz s1) (capacity s1) (Some (cmp_fn s1)) (cleanup_fn s1)
      (toString_fn s1) = Inr (Some ?u, st1)"
    by (simp add: cset_create_fresh st1_def new_def)
  have d: "deref st1 (Some ?u) = Inr new" unfolding st1_def by (intro deref_new) simp
  have t: "\<forall>x y. \<not> isl (cmp_fn new (mem st1) x y)" using assms(4) by (simp add: new_def st1_def)
  have d2: "deref st1 (Some b) = Inr s2" using lt assms(2) b by (simp add: st1_def deref_old)
  have t2: "\<forall>x y. \<not> isl (cmp_fn s2 (mem st1) x y)" using assms(5) by (simp add: st1_def)
  from lt have ne: "b \<noteq> ?u" by simp
  from select_each_returns [OF d t d2 t2 ne, of False "elements s1"] obtain u1 where
    sel: "select_each False st1 (Some b) (Some ?u) (elements s1) = Inr (assign st1 ?u u1)"
    and u1: "same_kind new u1"
    by blast
  have "heap (assign st1 ?u u1) = heap st @ [Some u1]" "mem (assign st1 ?u u1) = mem st"
    unfolding st1_def by (rule assign_new)+
  moreover have "cset_difference st set1 set2 = Inr (Some ?u, assign st1 ?u u1)"
    using nn assms(1,2,3) create sel b by (simp add: cset_difference_def)
  moreover have "same_kind s1 u1" using kind u1 by (rule same_kind_trans)
  ultimately show ?thesis by blast
qed

lemma cset_intersect_frame:
  assumes "deref st set1 = Inr s1" and "deref st set2 = Inr s2"
    and "elemsz s1 = elemsz s2"
    and "\<forall>x y. \<not> isl (cmp_fn s1 (mem st) x y)"
    and "\<forall>x y. \<not> isl (cmp_fn s2 (mem st) x y)"
  shows "\<exists>st' u. cset_intersect st set1 set2 = Inr (Some (length (heap st)), st') \<and>
           heap st' = heap st @ [Some u] \<and> mem st' = mem st \<and> same_kind s1 u"
proof -
  from assms(1,2) have nn: "set1 \<noteq> None" "set2 \<noteq> None" by (simp_all add: deref_not_null)
  then obtain b where b: "set2 = Some b" by auto
  with assms(2) have lt: "b < length (heap st)" by (simp add: deref_live)
  define new where "new = \<lparr>elements = [], elemsz = elemsz s1,
       capacity = (if capacity s1 = 0 then DEFAULT_CAPACITY else capacity s1),
       cmp_fn = cmp_fn s1, cleanup_fn = cleanup_fn s1, toString_fn = toString_fn s1\<rparr>"
  define st1 where "st1 = st\<lparr>heap := heap st @ [Some new]\<rparr>"
  define xs where "xs = take (nat (if n_elements s1 < n_elements s2 then n_elements s1
                                      else n_elements s2)) (elements s1)"
  let ?u = "length (heap st)"
  have kind: "same_kind s1 new" by (simp add: same_kind_def new_def)
  have create: "cset_create st (elemsz s1) (capacity s1) (Some (cmp_fn s1)) (cleanup_fn s1)
      (toString_fn s1) = Inr (Some ?u, st1)"
    by (simp add: cset_create_fresh st1_def new_def)
  have d: "deref st1 (Some ?u) = Inr new" unfolding st1_def by (intro deref_new) simp
  have t: "\<forall>x y. \<not> isl (cmp_fn new (mem st1) x y)" using assms(4) by (simp add: new_def st1_def)
  have d2: "deref st1 (Some b) = Inr s2" using lt assms(2) b by (simp add: st1_def deref_old)
  have t2: "\<forall>x y. \<not> isl (cmp_fn s2 (mem st1) x y)" using assms(5) by (simp add: st1_def)
  from lt have ne: "b \<noteq> ?u" by simp
  from select_each_returns [OF d t d2 t2 ne, of True xs] obtain u1 where
    sel: "select_each True st1 (Some b) (Some ?u) xs = Inr (assign st1 ?u u1)"
    and u1: "same_kind new u1"
    by blast
  have "heap (assign st1 ?u u1) = heap st @ [Some u1]" "mem (assign st1 ?u u1) = mem st"
    unfolding st1_def by (rule assign_new)+
  moreover have "cset_intersect st set1 set2 = Inr (Some ?u, assign st1 ?u u1)"
    using nn assms(1,2,3) create sel b by (simp add: cset_intersect_def Let_def xs_def)
  moreover have "same_kind s1 u1" using kind u1 by (rule same_kind_trans)
  ultimately show ?thesis by blast
qed

lemma deref_appended:
  "a < length h \<Longrightarrow> h ! a = Some s \<Longrightarrow> heap st = h @ h' \<Longrightarrow> deref st (Some a) = Inr s"
  by (simp add: deref_def nth_append)

lemma cset_delete_no_cleanup:
  assumes "deref st (Some a) = Inr s" and "cleanup_fn s = None"
  shows "cset_delete st (Some a) = Inr (free st a)"
  using assms by (simp add: cset_delete_def)

text \<open>
  \<open>cset_symmetricDifference\<close> on two sets without a cleanup function: the two differences
  are allocated and freed, the result is the third new block, and every block that was
  there before is as it was.
\<close>

lemma cset_symmetricDifference_frame:
  assumes "deref st set1 = Inr s1" and "deref st set2 = Inr s2"
    and "elemsz s1 = elemsz s2"
    and "\<forall>x y. \<not> isl (cmp_fn s1 (mem st) x y)"
    and "\<forall>x y. \<not> isl (cmp_fn s2 (mem st) x y)"
    and "cleanup_fn s1 = None" and "cleanup_fn s2 = None"
  shows "\<exists>st' u. cset_symmetricDifference st set1 set2 = Inr (Some (length (heap st) + 2), st') \<and>
           heap st' = heap st @ [None, None, Some u] \<and> mem st' = mem st \<and> same_kind s1 u"
proof -
  let ?n = "length (heap st)"
  from assms(1,2) obtain a b where ab: "set1 = Some a" "set2 = Some b"
    by (metis deref_not_null not_None_eq)
  with assms(1,2) have live: "a < ?n" "heap st ! a = Some s1" "b < ?n" "heap st ! b = Some s2"
    by (simp_all add: deref_live)
  \<comment> \<open>the first difference\<close>
  from cset_difference_frame [OF assms(1,2,3,4,5)] obtain st1 d1 where
    r1: "cset_difference st set1 set2 = Inr (Some ?n, st1)"
    and h1: "heap st1 = heap st @ [Some d1]" and m1: "mem st1 = mem st" and k1: "same_kind s1 d1"
    by blast
  from live h1 have o1: "deref st1 set1 = Inr s1" "deref st1 set2 = Inr s2"
    unfolding ab by (simp_all add: deref_appended [where h = "heap st"])
  \<comment> \<open>the second difference\<close>
  from assms(3,4,5) m1 have "elemsz s2 = elemsz s1" "\<forall>x y. \<not> isl (cmp_fn s2 (mem st1) x y)"
    "\<forall>x y. \<not> isl (cmp_fn s1 (mem st1) x y)" by simp_all
  from cset_difference_frame [OF o1(2) o1(1) this] h1 obtain st2 d2 where
    r2: "cset_difference st1 set2 set1 = Inr (Some (?n + 1), st2)"
    and h2: "heap st2 = heap st @ [Some d1, Some d2]" and m2: "mem st2 = mem st"
    and k2: "same_kind s2 d2"
    using m1 by auto
  \<comment> \<open>their union\<close>
  have dd1: "deref st2 (Some ?n) = Inr d1" and dd2: "deref st2 (Some (?n + 1)) = Inr d2"
    by (simp_all add: deref_def h2 nth_append)
  from k1 k2 assms(3) have e: "elemsz d1 = elemsz d2" by (simp add: same_kind_def)
  from k1 assms(4) m2 have t: "\<forall>x y. \<not> isl (cmp_fn d1 (mem st2) x y)" by (simp add: same_kind_def)
  from cset_union_frame [OF dd1 dd2 e t] h2 obtain st3 u where
    r3: "cset_union st2 (Some ?n) (Some (?n + 1)) = Inr (Some (?n + 2), st3)"
    and h3: "heap st3 = heap st @ [Some d1, Some d2, Some u]" and m3: "mem st3 = mem st"
    and k3: "same_kind d1 u"
    using m2 by auto
  \<comment> \<open>the two differences are released\<close>
  have "deref st3 (Some ?n) = Inr d1" by (simp add: deref_def h3 nth_append)
  moreover from k1 assms(6) have "cleanup_fn d1 = None" by (simp add: same_kind_def)
  ultimately have r4: "cset_delete st3 (Some ?n) = Inr (free st3 ?n)"
    by (rule cset_delete_no_cleanup)
  have h4: "heap (free st3 ?n) = heap st @ [None, Some d2, Some u]"
    by (simp add: free_def h3 list_update_append)
  then have "deref (free st3 ?n) (Some (?n + 1)) = Inr d2" by (simp add: deref_def nth_append)
  moreover from k2 assms(7) have "cleanup_fn d2 = None" by (simp add: same_kind_def)
  ultimately have r5: "cset_delete (free st3 ?n) (Some (?n + 1)) = Inr (free (free st3 ?n) (?n + 1))"
    by (rule cset_delete_no_cleanup)
  let ?st' = "free (free st3 ?n) (?n + 1)"
  have "heap ?st' = heap st @ [None, None, Some u]"
    by (simp add: free_def h3 list_update_append)
  moreover have "mem ?st' = mem st" by (simp add: free_def m3)
  moreover have "same_kind s1 u" using k1 k3 by (rule same_kind_trans)
  moreover have "cset_symmetricDifference st set1 set2 = Inr (Some (?n + 2), ?st')"
    using r1 r2 r3 r4 r5 by (simp add: cset_symmetricDifference_def)
  ultimately show ?thesis by blast
qed

text \<open>
  Claim C9: the four operations leave both operands completely unchanged and return a
  newly allocated set that is neither of them.

  \<open>cset_symmetricDifference\<close> releases the two differences with \<open>cset_delete\<close>, which
  calls the cleanup function on their slots. The slots are copies of the slots of the
  operands, so what the elements of the operands own is released. With the set
  \<open>{"hello"}\<close> of heap-allocated strings at address 0 and an empty one at address 1, the
  string is freed; the operand and the result (address 4) both keep the pointer to it.
\<close>

theorem cset_symmetricDifference_frees_elements:
  "cset_symmetricDifference
     \<lparr>heap = [Some (str_set [0]), Some (str_set [])], mem = [Some ''hello'']\<rparr> (Some 0) (Some 1)
   = Inr (Some 4, \<lparr>heap = [Some (str_set [0]), Some (str_set []), None, None,
                            Some (str_set [0])], mem = [None]\<rparr>)"
  by (simp add: set_eval store_eval client_eval)

subsection \<open>cset_toString\<close>

lemma toString_loop_fits:
  assumes "map (f m) xs = map (\<lambda>str. Inr (Some str)) strs"
    and "length acc + length (join_strs strs) + 1 < SET_STR_MAX_LEN"
  shows "toString_loop f m acc xs = Inr (acc @ join_strs strs)"
  using assms
proof (induction xs arbitrary: acc strs)
  case Nil
  then show ?case by simp
next
  case (Cons x xs)
  from Cons.prems(1) obtain e es where strs: "strs = e # es"
    and fx: "f m x = Inr (Some e)" and rest: "map (f m) xs = map (\<lambda>str. Inr (Some str)) es"
    by (cases strs) auto
  show ?case
  proof (cases xs)
    case Nil
    with rest have "es = []" by simp
    with Nil Cons.prems(2) strs fx show ?thesis
      by (simp add: strcat_def)
  next
    case (Cons y ys)
    with rest obtain e' es' where es: "es = e' # es'" by (cases es) auto
    have fits: "length (acc @ e @ '', '') + length (join_strs es) + 1 < SET_STR_MAX_LEN"
      using Cons.prems(2) strs es by simp
    have "toString_loop f m (acc @ e @ '', '') xs = Inr ((acc @ e @ '', '') @ join_strs es)"
      by (rule Cons.IH [OF rest fits])
    with Cons fx fits strs es show ?thesis
      by (simp add: strcat_def)
  qed
qed

text \<open>
  Claim C8: \<open>cset_toString\<close> returns NULL when the set has no toString function;
  otherwise it returns \<open>{e1, e2, ..., en}\<close>, where \<open>e1..en\<close> are the strings of the
  elements in sorted order, separated by a comma and a space.

  The text is built in an array of \<open>SET_STR_MAX_LEN\<close> = 2000 bytes. For a set of
  strings that holds one string of 2000 characters \<open>strcat\<close> writes past its end.
\<close>

theorem cset_toString_overflow:
  "cset_toString [Some (replicate 2000 CHR ''a'')] (str_set [0]) = Inl BufferOverflow"
  by (simp add: cset_toString_def client_eval strcat_def SET_STR_MAX_LEN_def)

text \<open>
  Claim C8, amended: \<open>cset_toString\<close> returns NULL when the set has no toString function.
  When it has one, every call of it on a stored element returns a string, and the text
  \<open>{e1, e2, ..., en}\<close> of these strings, in the order of the slots, is shorter than
  \<open>SET_STR_MAX_LEN\<close> (so that it fits with its terminating NUL), then \<open>cset_toString\<close>
  returns that text. The order of the slots is the sorted order whenever the set is sorted.
\<close>

theorem cset_toString_format:
  "(toString_fn s = None \<longrightarrow> cset_toString m s = Inr None) \<and>
   (toString_fn s = Some f \<and> map (f m) (elements s) = map (\<lambda>str. Inr (Some str)) strs \<and>
    length (set_format strs) < SET_STR_MAX_LEN \<longrightarrow>
      cset_toString m s = Inr (Some (set_format strs)))"
proof (intro conjI impI)
  assume "toString_fn s = None"
  then show "cset_toString m s = Inr None" by (simp add: cset_toString_def)
next
  assume a: "toString_fn s = Some f \<and> map (f m) (elements s) = map (\<lambda>str. Inr (Some str)) strs \<and>
    length (set_format strs) < SET_STR_MAX_LEN"
  then have fits: "length ''{'' + length (join_strs strs) + 1 < SET_STR_MAX_LEN"
    by (simp add: set_format_def)
  from a have "toString_loop f m ''{'' (elements s) = Inr (''{'' @ join_strs strs)"
    by (intro toString_loop_fits fits) simp
  with a fits show "cset_toString m s = Inr (Some (set_format strs))"
    by (simp add: cset_toString_def strcat_def set_format_def)
qed

theorem cset_toString_format_witness:
  "(toString_fn ((int_set [1, 2])\<lparr>toString_fn := None\<rparr>) = None \<and>
    cset_toString () ((int_set [1, 2])\<lparr>toString_fn := None\<rparr>) = Inr None) \<and>
   (toString_fn (int_set [1, 2, 3, 5, 6, 12, 15]) = Some print_int \<and>
    map (print_int ()) (elements (int_set [1, 2, 3, 5, 6, 12, 15]))
      = map (\<lambda>str. Inr (Some str)) [''1'', ''2'', ''3'', ''5'', ''6'', ''12'', ''15''] \<and>
    length (set_format [''1'', ''2'', ''3'', ''5'', ''6'', ''12'', ''15'']) < SET_STR_MAX_LEN \<and>
    cset_toString () (int_set [1, 2, 3, 5, 6, 12, 15]) = Inr (Some ''{1, 2, 3, 5, 6, 12, 15}''))"
proof -
  let ?none = "(int_set [1, 2])\<lparr>toString_fn := None\<rparr>"
  let ?s = "int_set [1, 2, 3, 5, 6, 12, 15]"
  let ?strs = "[''1'', ''2'', ''3'', ''5'', ''6'', ''12'', ''15'']"
  have n: "toString_fn ?none = None" by simp
  have h1: "toString_fn ?s = Some print_int" by (simp add: int_set_def)
  have h2: "map (print_int ()) (elements ?s) = map (\<lambda>str. Inr (Some str)) ?strs"
    by (simp add: int_set_def print_int_def decimal.simps)
  have h3: "length (set_format ?strs) < SET_STR_MAX_LEN"
    by (simp add: set_format_def SET_STR_MAX_LEN_def)
  have fmt: "set_format ?strs = ''{1, 2, 3, 5, 6, 12, 15}''"
    by (simp add: set_format_def)
  from cset_toString_format [where s = ?none and m = "()"] n
  have none: "cset_toString () ?none = Inr None" by blast
  from cset_toString_format [where s = ?s and m = "()" and f = print_int and strs = ?strs] h1 h2 h3
  have "cset_toString () ?s = Inr (Some (set_format ?strs))" by blast
  with none n h1 h2 h3 fmt show ?thesis by simp
qed

subsection \<open>cset_compare on empty sets\<close>

text \<open>
  Claim C10: two distinct empty sets with the same element size compare equal:
  \<open>cset_compare\<close> returns 0, whatever their callbacks and capacities are.
\<close>

theorem cset_compare_empty:
  assumes "deref st set1 = Inr s1" and "deref st set2 = Inr s2"
    and "set1 \<noteq> set2"
    and "n_elements s1 = 0" and "n_elements s2 = 0"
    and "elemsz s1 = elemsz s2"
  shows "cset_compare st set1 set2 = Inr 0"
  using assms by (simp add: cset_compare_def n_elements_def)

theorem cset_compare_empty_witness:
  "deref \<lparr>heap = [Some (int_set []), Some ((int_set [])\<lparr>capacity := 32, toString_fn := None\<rparr>)],
          mem = ()\<rparr> (Some 0) = Inr (int_set []) \<and>
   deref \<lparr>heap = [Some (int_set []), Some ((int_set [])\<lparr>capacity := 32, toString_fn := None\<rparr>)],
          mem = ()\<rparr> (Some 1) = Inr ((int_set [])\<lparr>capacity := 32, toString_fn := None\<rparr>) \<and>
   Some (0 :: nat) \<noteq> Some 1 \<and>
   n_elements (int_set []) = 0 \<and>
   n_elements ((int_set [])\<lparr>capacity := 32, toString_fn := None\<rparr>) = 0 \<and>
   elemsz (int_set []) = elemsz ((int_set [])\<lparr>capacity := 32, toString_fn := None\<rparr>) \<and>
   cset_compare \<lparr>heap = [Some (int_set []), Some ((int_set [])\<lparr>capacity := 32, toString_fn := None\<rparr>)],
                 mem = ()\<rparr> (Some 0) (Some 1) = Inr 0"
proof -
  let ?other = "(int_set [])\<lparr>capacity := 32, toString_fn := None\<rparr>"
  let ?st = "\<lparr>heap = [Some (int_set []), Some ?other], mem = ()\<rparr>"
  have h1: "deref ?st (Some 0) = Inr (int_set [])" by (simp add: deref_def)
  have h2: "deref ?st (Some 1) = Inr ?other" by (simp add: deref_def)
  have h3: "Some (0 :: nat) \<noteq> Some 1" by simp
  have h4: "n_elements (int_set []) = 0" by (simp add: n_elements_def int_set_def)
  have h5: "n_elements ?other = 0" by (simp add: n_elements_def int_set_def)
  have h6: "elemsz (int_set []) = elemsz ?other" by simp
  from cset_compare_empty [OF h1 h2 h3 h4 h5 h6] h1 h2 h3 h4 h5 h6 show ?thesis by simp
qed

subsection \<open>cset_powerSet: the subsets\<close>

text \<open>
  The inner loop of \<open>cset_powerSet\<close> on a sorted set appends the selected slots one after
  the other, so the subset holds exactly the slots that the bit vector selects. Two
  different bit vectors below \<open>2 ^ n\<close> select different slots of a sorted set of \<open>n\<close>
  elements, and \<open>cset_compare\<close> returns a number other than 0 for the two subsets.
\<close>

lemma subset_loop_picks:
  assumes "deref st (Some a) = Inr sub"
    and "index_ordered (cmp_fn sub (mem st)) (pre @ rest)"
    and "set (elements sub) \<subseteq> set pre"
  shows "\<exists>c. subset_loop st (Some a) bit_vector rest i
           = Inr (assign st a (sub\<lparr>capacity := c, elements := elements sub @ pick bit_vector rest i\<rparr>))"
  using assms
proof (induction rest arbitrary: st sub pre i)
  case Nil
  from deref_live [OF Nil.prems(1)]
  have "assign st a (sub\<lparr>capacity := capacity sub, elements := elements sub\<rparr>) = st"
    by (simp add: assign_def list_update_same_conv)
  then show ?case by (metis append_Nil2 pick.simps(1) subset_loop.simps(1))
next
  case (Cons x rest)
  show ?case
  proof (cases "bit bit_vector i")
    case False
    from Cons.prems have "index_ordered (cmp_fn sub (mem st)) ((pre @ [x]) @ rest)"
      and "set (elements sub) \<subseteq> set (pre @ [x])" by auto
    from Cons.IH [OF Cons.prems(1) this, of "i + 1"] False show ?thesis by simp
  next
    case True
    let ?cmp = "cmp_fn sub (mem st)"
    have greater: "\<forall>y\<in>set (elements sub). \<exists>c. ?cmp x y = Inr c \<and> c > 0"
    proof
      fix y assume "y \<in> set (elements sub)"
      with Cons.prems(3) have "y \<in> set pre" by blast
      then obtain j where j: "j < length pre" "y = pre ! j"
        by (auto simp: in_set_conv_nth)
      from Cons.prems(2) [unfolded index_ordered_def, rule_format, of "length pre" j] j
      obtain c where "?cmp x y = Inr c" "\<not> c < 0" "c \<noteq> 0"
        by (auto simp: nth_append)
      then show "\<exists>c. ?cmp x y = Inr c \<and> c > 0" by auto
    qed
    from cset_add_at_appends [OF Cons.prems(1) greater]
    obtain c where add: "cset_add_at st (Some a) x
       = Inr (True, assign st a (sub\<lparr>capacity := c, elements := elements sub @ [x]\<rparr>))"
      by blast
    let ?sub = "sub\<lparr>capacity := c, elements := elements sub @ [x]\<rparr>"
    let ?st = "assign st a ?sub"
    from deref_live [OF Cons.prems(1)] have d: "deref ?st (Some a) = Inr ?sub"
      by (simp add: deref_assign_same)
    from Cons.prems have "index_ordered (cmp_fn ?sub (mem ?st)) ((pre @ [x]) @ rest)"
      and "set (elements ?sub) \<subseteq> set (pre @ [x])" by (auto simp: mem_assign)
    from Cons.IH [OF d this, of "i + 1"]
    obtain c' where "subset_loop ?st (Some a) bit_vector rest (i + 1)
       = Inr (assign ?st a (?sub\<lparr>capacity := c', elements := elements ?sub @ pick bit_vector rest (i + 1)\<rparr>))"
      by blast
    with add True have "subset_loop st (Some a) bit_vector (x # rest) i
       = Inr (assign st a (sub\<lparr>capacity := c', elements := elements sub @ pick bit_vector (x # rest) i\<rparr>))"
      by (simp add: assign_assign)
    then show ?thesis by blast
  qed
qed

lemma index_ordered_distinct:
  assumes "index_ordered cmp xs"
  shows "distinct xs"
proof -
  have "xs ! i \<noteq> xs ! j" if "i < length xs" "j < length xs" "i \<noteq> j" for i j
  proof
    assume eq: "xs ! i = xs ! j"
    from assms [unfolded index_ordered_def, rule_format, OF that(1,2)] that(3)
    obtain c where c: "cmp (xs ! i) (xs ! j) = Inr c" "c \<noteq> 0" by blast
    from assms [unfolded index_ordered_def, rule_format, OF that(2,2)]
    have "cmp (xs ! j) (xs ! j) = Inr 0" by auto
    with c eq show False by simp
  qed
  then show ?thesis by (simp add: distinct_conv_nth)
qed

lemma index_ordered_cmp:
  assumes "index_ordered cmp xs" and "x \<in> set xs" and "y \<in> set xs"
  shows "\<exists>c. cmp x y = Inr c \<and> (c = 0 \<longleftrightarrow> x = y)"
proof -
  from assms(2,3) obtain i j where ij: "i < length xs" "x = xs ! i" "j < length xs" "y = xs ! j"
    by (auto simp: in_set_conv_nth)
  from assms(1) [unfolded index_ordered_def, rule_format, OF ij(1,3)]
  obtain c where c: "cmp x y = Inr c" "c = 0 \<longleftrightarrow> i = j" using ij by auto
  from index_ordered_distinct [OF assms(1)] ij have "x = y \<longleftrightarrow> i = j"
    by (auto simp: nth_eq_iff_index_eq)
  with c show ?thesis by simp
qed

lemma compare_loop_differs:
  assumes "length l1 = length l2" and "l1 \<noteq> l2"
    and "set l1 \<subseteq> set xs" and "set l2 \<subseteq> set xs" and "index_ordered cmp xs"
  shows "\<exists>c. compare_loop cmp l1 l2 = Inr c \<and> c \<noteq> 0"
  using assms
proof (induction l1 l2 rule: list_induct2)
  case Nil
  then show ?case by simp
next
  case (Cons x l1 y l2)
  from Cons.prems have "x \<in> set xs" "y \<in> set xs" by auto
  from index_ordered_cmp [OF Cons.prems(4) this]
  obtain c where c: "cmp x y = Inr c" "c = 0 \<longleftrightarrow> x = y" by blast
  show ?case
  proof (cases "x = y")
    case True
    with Cons.prems have "l1 \<noteq> l2" "set l1 \<subseteq> set xs" "set l2 \<subseteq> set xs" by auto
    from Cons.IH [OF this Cons.prems(4)] c True show ?thesis by simp
  next
    case False
    with c show ?thesis by simp
  qed
qed

lemma set_pick: "set (pick b xs i) \<subseteq> set xs"
  by (induction xs arbitrary: i) auto

lemma pick_zero: "pick 0 xs i = []"
  by (induction xs arbitrary: i) simp_all

lemma pick_bits:
  assumes "pick b1 xs i = pick b2 xs i" and "distinct xs" and "k < length xs"
  shows "bit b1 (i + k) = bit b2 (i + k)"
  using assms
proof (induction xs arbitrary: i k)
  case Nil
  then show ?case by simp
next
  case (Cons x xs)
  from Cons.prems(2) have x: "x \<notin> set xs" and d: "distinct xs" by simp_all
  have notin: "x \<notin> set (pick b xs (i + 1))" for b using x set_pick [of b xs "i + 1"] by blast
  have tails: "pick b1 xs (i + 1) = pick b2 xs (i + 1)" and heads: "bit b1 i = bit b2 i"
    using Cons.prems(1) notin [of b1] notin [of b2]
    by (auto split: if_splits) (metis list.set_intros(1))+
  show ?case
  proof (cases k)
    case 0
    with heads show ?thesis by simp
  next
    case (Suc k')
    with Cons.prems(3) have "k' < length xs" by simp
    from Cons.IH [OF tails d this] Suc show ?thesis by simp
  qed
qed

lemma pick_inj:
  assumes "pick b1 xs 0 = pick b2 xs 0" and "distinct xs"
    and "b1 < 2 ^ length xs" and "b2 < 2 ^ length xs"
  shows "b1 = b2"
proof (rule bit_eqI)
  fix k
  show "bit b1 k = bit b2 k"
  proof (cases "k < length xs")
    case True
    from pick_bits [OF assms(1,2) True] show ?thesis by simp
  next
    case False
    then have "(2::nat) ^ length xs \<le> 2 ^ k" by simp
    with assms(3,4) have "b1 < 2 ^ k" "b2 < 2 ^ k" by linarith+
    then show ?thesis by (simp add: bit_iff_odd)
  qed
qed

lemma cset_compare_differs:
  assumes "deref st set1 = Inr s1" and "deref st set2 = Inr s2"
    and "elemsz s1 = elemsz s2"
    and "index_ordered (cmp_fn s1 (mem st)) xs"
    and "elements s1 = pick b1 xs 0" and "elements s2 = pick b2 xs 0"
    and "b1 \<noteq> b2" and "b1 < 2 ^ length xs" and "b2 < 2 ^ length xs"
  shows "\<exists>c. cset_compare st set1 set2 = Inr c \<and> c \<noteq> 0"
proof -
  from pick_inj [OF _ index_ordered_distinct [OF assms(4)] assms(8,9)] assms(5,6,7)
  have neq: "elements s1 \<noteq> elements s2" by auto
  with assms(1,2) have ptr: "set1 \<noteq> set2" by auto
  show ?thesis
  proof (cases "n_elements s1 = n_elements s2")
    case False
    with assms(1,2) ptr show ?thesis by (simp add: cset_compare_def)
  next
    case True
    then have "length (elements s1) = length (elements s2)" by (simp add: n_elements_def)
    from compare_loop_differs [OF this neq _ _ assms(4)] assms(5,6) set_pick
    have "\<exists>c. compare_loop (cmp_fn s1 (mem st)) (elements s1) (elements s2) = Inr c \<and> c \<noteq> 0"
      by metis
    with True assms(1,2,3) ptr show ?thesis by (simp add: cset_compare_def)
  qed
qed

lemma isSubsetOf_loop_stored:
  assumes "deref st set2 = Inr s2"
    and "index_ordered (cmp_fn s2 (mem st)) (elements s2)"
    and "set xs \<subseteq> set (elements s2)"
  shows "isSubsetOf_loop st set2 xs = Inr True"
  using assms(3)
proof (induction xs)
  case Nil
  then show ?case by simp
next
  case (Cons x xs)
  then have "x \<in> set (elements s2)" by simp
  from cset_contains_stored [OF assms(2) this] assms(1)
  have "cset_contains_at st set2 x = Inr True" by (simp add: cset_contains_at_def)
  with Cons show ?case by simp
qed

subsection \<open>cset_powerSet: the loop\<close>

lemma powerSet_step:
  assumes ord: "index_ordered (cmp_fn s (mem (mem st0))) (elements s)"
    and inv: "powerSet_inv st0 st s k"
    and k: "k < 2 ^ length (elements s)"
  shows "\<exists>inner inner' st'.
           cset_create (mem st) (elemsz s) h (Some (cmp_fn s)) (cleanup_fn s) (toString_fn s)
             = Inr (Some (length (heap (mem st0)) + k), inner) \<and>
           subset_loop inner (Some (length (heap (mem st0)) + k)) k (elements s) 0 = Inr inner' \<and>
           cset_add_at (st\<lparr>mem := inner'\<rparr>) (Some (length (heap st0))) (Some (length (heap (mem st0)) + k))
             = Inr (True, st') \<and>
           powerSet_inv st0 st' s (k + 1)"
proof -
  let ?r = "length (heap st0)" and ?base = "length (heap (mem st0))"
  let ?xs = "elements s"
  let ?a = "?base + k"
  from inv have len: "length (heap (mem st)) = ?a" and m: "mem (mem st) = mem (mem st0)"
    and lenr: "length (heap st) = ?r + 1"
    and old: "take ?base (heap (mem st)) = heap (mem st0)"
    and subs: "\<forall>j<k. \<exists>sub. heap (mem st) ! (?base + j) = Some sub \<and>
                elements sub = pick j ?xs 0 \<and> elemsz sub = elemsz s \<and> cmp_fn sub = cmp_fn s"
    by (simp_all add: powerSet_inv_def)
  from inv obtain P where P: "heap st ! ?r = Some P" "cmp_fn P = cset_compare"
    "length (elements P) = k" "set (elements P) = (\<lambda>j. Some (?base + j)) ` {..<k}"
    unfolding powerSet_inv_def by blast
  \<comment> \<open>the new subset is allocated\<close>
  define new where "new = \<lparr>elements = [], elemsz = elemsz s,
       capacity = (if h = 0 then DEFAULT_CAPACITY else h),
       cmp_fn = cmp_fn s, cleanup_fn = cleanup_fn s, toString_fn = toString_fn s\<rparr>"
  define inner where "inner = (mem st)\<lparr>heap := heap (mem st) @ [Some new]\<rparr>"
  have create: "cset_create (mem st) (elemsz s) h (Some (cmp_fn s)) (cleanup_fn s) (toString_fn s)
      = Inr (Some ?a, inner)"
    using len by (simp add: cset_create_fresh inner_def new_def)
  have new: "elements new = []" "elemsz new = elemsz s" "cmp_fn new = cmp_fn s"
    by (simp_all add: new_def)
  have inner: "heap inner = heap (mem st) @ [Some new]" "mem inner = mem (mem st0)"
    using m by (simp_all add: inner_def)
  \<comment> \<open>and filled\<close>
  have d_new: "deref inner (Some ?a) = Inr new"
    unfolding inner_def using len by (intro deref_new) simp
  have "index_ordered (cmp_fn new (mem inner)) ([] @ ?xs)" using ord new inner by simp
  from subset_loop_picks [OF d_new this, of k 0] new
  obtain c where fill: "subset_loop inner (Some ?a) k ?xs 0
      = Inr (assign inner ?a (new\<lparr>capacity := c, elements := pick k ?xs 0\<rparr>))"
    by auto
  define sub where "sub = new\<lparr>capacity := c, elements := pick k ?xs 0\<rparr>"
  define inner' where "inner' = assign inner ?a sub"
  have sub: "elements sub = pick k ?xs 0" "elemsz sub = elemsz s" "cmp_fn sub = cmp_fn s"
    using new by (simp_all add: sub_def)
  have heap': "heap inner' = heap (mem st) @ [Some sub]"
    using len by (simp add: inner'_def heap_assign inner list_update_append)
  have mem': "mem inner' = mem (mem st0)" using inner by (simp add: inner'_def mem_assign)
  have d_sub: "deref inner' (Some ?a) = Inr sub"
    using len by (intro deref_heap) (simp_all add: heap' nth_append)
  \<comment> \<open>it differs from the subsets made so far\<close>
  define st1 where "st1 = st\<lparr>mem := inner'\<rparr>"
  have st1: "heap st1 = heap st" "mem st1 = inner'" by (simp_all add: st1_def)
  have d_P: "deref st1 (Some ?r) = Inr P" using P lenr by (intro deref_heap) (simp_all add: st1)
  have differs: "\<forall>y\<in>set (elements P). \<exists>c. cmp_fn P (mem st1) (Some ?a) y = Inr c \<and> c \<noteq> 0"
  proof
    fix y assume "y \<in> set (elements P)"
    with P obtain j where j: "j < k" "y = Some (?base + j)" by auto
    with subs obtain sub_j where sub_j: "heap (mem st) ! (?base + j) = Some sub_j"
      "elements sub_j = pick j ?xs 0" "elemsz sub_j = elemsz s" "cmp_fn sub_j = cmp_fn s" by blast
    from j len sub_j have d_j: "deref inner' (Some (?base + j)) = Inr sub_j"
      by (intro deref_heap) (simp_all add: heap' nth_append)
    have "\<exists>c. cset_compare inner' (Some ?a) (Some (?base + j)) = Inr c \<and> c \<noteq> 0"
      using j k sub sub_j ord mem'
      by (intro cset_compare_differs [OF d_sub d_j, where xs = ?xs and ?b1.0 = k and ?b2.0 = j])
         simp_all
    with P j st1 show "\<exists>c. cmp_fn P (mem st1) (Some ?a) y = Inr c \<and> c \<noteq> 0" by simp
  qed
  from cset_add_at_inserts [OF d_P differs]
  obtain i c' where i: "i \<le> length (elements P)" and add: "cset_add_at st1 (Some ?r) (Some ?a)
      = Inr (True, assign st1 ?r
           (P\<lparr>capacity := c', elements := take i (elements P) @ Some ?a # drop i (elements P)\<rparr>))"
    by blast
  define P' where "P' = P\<lparr>capacity := c', elements := take i (elements P) @ Some ?a # drop i (elements P)\<rparr>"
  define st' where "st' = assign st1 ?r P'"
  \<comment> \<open>the invariant holds again\<close>
  have "set (take i (elements P)) \<union> set (drop i (elements P)) = set (elements P)"
    by (metis append_take_drop_id set_append)
  then have set_P: "set (elements P') = insert (Some ?a) (set (elements P))"
    by (auto simp: P'_def)
  have len_P: "length (elements P') = k + 1" using i P by (simp add: P'_def)
  have cmp_P: "cmp_fn P' = cset_compare" using P by (simp add: P'_def)
  have st': "heap st' = (heap st)[?r := Some P']" "mem st' = inner'"
    by (simp_all add: st'_def heap_assign mem_assign st1)
  have "powerSet_inv st0 st' s (k + 1)"
    unfolding powerSet_inv_def
  proof (intro conjI)
    show "length (heap st') = ?r + 1" using lenr by (simp add: st')
    show "mem (mem st') = mem (mem st0)" using mem' by (simp add: st')
    show "length (heap (mem st')) = ?base + (k + 1)"
      using len by (simp add: st' heap')
    show "take ?base (heap (mem st')) = heap (mem st0)"
      using old len by (simp add: st' heap')
    show "\<forall>j<k + 1. \<exists>sub. heap (mem st') ! (?base + j) = Some sub \<and>
                elements sub = pick j ?xs 0 \<and> elemsz sub = elemsz s \<and> cmp_fn sub = cmp_fn s"
    proof (intro allI impI)
      fix j assume "j < k + 1"
      then consider "j < k" | "j = k" by linarith
      then show "\<exists>sub. heap (mem st') ! (?base + j) = Some sub \<and>
                elements sub = pick j ?xs 0 \<and> elemsz sub = elemsz s \<and> cmp_fn sub = cmp_fn s"
      proof cases
        case 1
        with subs len show ?thesis by (simp add: st' heap' nth_append)
      next
        case 2
        with len sub show ?thesis by (simp add: st' heap' nth_append)
      qed
    qed
    have "(\<lambda>j. Some (?base + j)) ` {..<k + 1} = insert (Some ?a) ((\<lambda>j. Some (?base + j)) ` {..<k})"
      by (auto simp: less_Suc_eq)
    with P set_P len_P cmp_P lenr
    show "\<exists>P. heap st' ! ?r = Some P \<and> cmp_fn P = cset_compare \<and> length (elements P) = k + 1 \<and>
          set (elements P) = (\<lambda>j. Some (?base + j)) ` {..<k + 1}"
      by (simp add: st')
  qed
  moreover from fill have "subset_loop inner (Some ?a) k ?xs 0 = Inr inner'"
    by (simp add: inner'_def sub_def)
  moreover from add have "cset_add_at (st\<lparr>mem := inner'\<rparr>) (Some ?r) (Some ?a) = Inr (True, st')"
    by (simp add: st'_def P'_def st1_def)
  ultimately show ?thesis using create by blast
qed

lemma powerSet_loop_inv:
  assumes ord: "index_ordered (cmp_fn s (mem (mem st0))) (elements s)"
    and "powerSet_inv st0 st s k" and "k \<le> 2 ^ length (elements s)"
  shows "\<exists>st'. powerSet_loop st s (Some (length (heap st0))) (2 ^ length (elements s)) k = Inr st' \<and>
           powerSet_inv st0 st' s (2 ^ length (elements s))"
  using assms(2,3)
proof (induction "2 ^ length (elements s) - k" arbitrary: k st)
  case 0
  then have "k = 2 ^ length (elements s)" by simp
  with "0.prems" show ?case by (subst powerSet_loop.simps) simp
next
  case (Suc d)
  then have k: "k < 2 ^ length (elements s)" by linarith
  from powerSet_step [OF ord Suc.prems(1) k, of "word_of_nat (popcount k)"]
  obtain inner inner' st1 where step:
    "cset_create (mem st) (elemsz s) (word_of_nat (popcount k)) (Some (cmp_fn s)) (cleanup_fn s)
       (toString_fn s) = Inr (Some (length (heap (mem st0)) + k), inner)"
    "subset_loop inner (Some (length (heap (mem st0)) + k)) k (elements s) 0 = Inr inner'"
    "cset_add_at (st\<lparr>mem := inner'\<rparr>) (Some (length (heap st0))) (Some (length (heap (mem st0)) + k))
       = Inr (True, st1)"
    "powerSet_inv st0 st1 s (k + 1)"
    by blast
  from Suc.hyps(2) k have "d = 2 ^ length (elements s) - (k + 1)" by linarith
  from Suc.hyps(1) [OF this step(4)] k
  obtain st' where "powerSet_loop st1 s (Some (length (heap st0))) (2 ^ length (elements s)) (k + 1)
      = Inr st'" "powerSet_inv st0 st' s (2 ^ length (elements s))"
    by auto
  with step k show ?case
    by (subst powerSet_loop.simps) simp
qed

lemma powerSet_inv_start:
  assumes "deref (mem st0) set' = Inr s"
  shows "\<exists>inner st b.
           cset_create (mem st0) (elemsz s) h (Some (cmp_fn s)) (cleanup_fn s) (toString_fn s)
             = Inr (Some (length (heap (mem st0))), inner) \<and>
           cset_add_at
             (st0\<lparr>heap := heap st0 @ [Some \<lparr>elements = [], elemsz = e, capacity = c,
                       cmp_fn = cset_compare, cleanup_fn = cl, toString_fn = ts\<rparr>],
                  mem := inner\<rparr>)
             (Some (length (heap st0))) (Some (length (heap (mem st0)))) = Inr (b, st) \<and>
           powerSet_inv st0 st s 1"
proof -
  let ?r = "length (heap st0)" and ?base = "length (heap (mem st0))"
  define P0 :: "(ptr, ('a, 'b) store) CSetImplementation"
    where "P0 = \<lparr>elements = [], elemsz = e, capacity = c,
                       cmp_fn = cset_compare, cleanup_fn = cl, toString_fn = ts\<rparr>"
  define e0 where "e0 = \<lparr>elements = [], elemsz = elemsz s,
       capacity = (if h = 0 then DEFAULT_CAPACITY else h),
       cmp_fn = cmp_fn s, cleanup_fn = cleanup_fn s, toString_fn = toString_fn s\<rparr>"
  define inner where "inner = (mem st0)\<lparr>heap := heap (mem st0) @ [Some e0]\<rparr>"
  define stA where "stA = st0\<lparr>heap := heap st0 @ [Some P0], mem := inner\<rparr>"
  have P0: "elements P0 = []" "cmp_fn P0 = cset_compare" by (simp_all add: P0_def)
  have e0: "elements e0 = []" "elemsz e0 = elemsz s" "cmp_fn e0 = cmp_fn s" by (simp_all add: e0_def)
  have inner: "heap inner = heap (mem st0) @ [Some e0]" "mem inner = mem (mem st0)"
    by (simp_all add: inner_def)
  have stA: "heap stA = heap st0 @ [Some P0]" "mem stA = inner" by (simp_all add: stA_def)
  have create: "cset_create (mem st0) (elemsz s) h (Some (cmp_fn s)) (cleanup_fn s) (toString_fn s)
      = Inr (Some ?base, inner)"
    by (simp add: cset_create_fresh inner_def e0_def)
  have d_P: "deref stA (Some ?r) = Inr P0" by (intro deref_heap) (simp_all add: stA)
  have "\<forall>y\<in>set (elements P0). \<exists>c. cmp_fn P0 (mem stA) (Some ?base) y = Inr c \<and> c \<noteq> 0"
    by (simp add: P0)
  from cset_add_at_inserts [OF d_P this] P0
  obtain c' where add: "cset_add_at stA (Some ?r) (Some ?base)
      = Inr (True, assign stA ?r (P0\<lparr>capacity := c', elements := [Some ?base]\<rparr>))"
    by auto
  define P1 where "P1 = P0\<lparr>capacity := c', elements := [Some ?base]\<rparr>"
  define st where "st = assign stA ?r P1"
  have P1: "elements P1 = [Some ?base]" "cmp_fn P1 = cset_compare" using P0 by (simp_all add: P1_def)
  have st: "heap st = heap st0 @ [Some P1]" "mem st = inner"
    by (simp_all add: st_def heap_assign mem_assign stA list_update_append)
  have "powerSet_inv st0 st s 1"
    unfolding powerSet_inv_def
    using P1 e0 by (auto simp add: st inner nth_append pick_zero)
  moreover from add have "cset_add_at
             (st0\<lparr>heap := heap st0 @ [Some \<lparr>elements = [], elemsz = e, capacity = c,
                       cmp_fn = cset_compare, cleanup_fn = cl, toString_fn = ts\<rparr>],
                  mem := inner\<rparr>)
             (Some ?r) (Some ?base) = Inr (True, st)"
    by (simp add: stA_def P0_def st_def P1_def)
  ultimately show ?thesis using create by blast
qed

subsection \<open>cset_powerSet\<close>

text \<open>
  Claim C7: for every set \<open>S\<close> of size \<open>n\<close>, \<open>cset_powerSet(S)\<close> returns a set of \<open>2^n\<close>
  elements, each of them a set that is a subset of \<open>S\<close>, with the empty set among them.

  The number of subsets is computed as \<open>1 << n\<close> in an \<open>int\<close>, and the bit vectors are
  \<open>unsigned int\<close>: for a set of 31 elements the shift overflows and no power set is
  returned.
\<close>

theorem cset_powerSet_31_elements:
  "cset_powerSet
     \<lparr>heap = [],
        mem = \<lparr>heap = [Some (int_set [1, 2, 3, 4, 5, 6, 7, 8, 9, 10, 11, 12, 13, 14, 15, 16, 17,
                                          18, 19, 20, 21, 22, 23, 24, 25, 26, 27, 28, 29, 30, 31])],
                 mem = ()\<rparr>\<rparr> (Some 0)
   = Inl ShiftOverflow"
  by (simp add: cset_powerSet_def deref_def n_elements_def int_set_def)

text \<open>
  Claim C7, amended: for every set \<open>S\<close> of \<open>n < 31\<close> elements that is sorted under a
  comparator valid on its elements, \<open>cset_powerSet(S)\<close> returns a set of \<open>2^n\<close> elements;
  each element points to a set for which \<open>cset_isSubsetOf(element, S)\<close> is true, and one of
  them points to an empty set.

  The set \<open>S\<close> lives in the inner store \<open>mem st\<close>, at the pointer \<open>set'\<close>; the power set is
  allocated in the outer store \<open>st\<close>.
\<close>

theorem cset_powerSet_subsets:
  assumes "deref (mem st) set' = Inr s"
    and "cset_size s < 31"
    and "valid_cmp_on (set (elements s)) (cmp_fn s (mem (mem st)))"
    and "strictly_sorted (mem (mem st)) s"
  shows "\<exists>power_set st' P.
           cset_powerSet st set' = Inr (power_set, st') \<and> deref st' power_set = Inr P \<and>
           cset_size P = 2 ^ nat (cset_size s) \<and>
           (\<forall>sub\<in>set (elements P).
              (\<exists>e. deref (mem st') sub = Inr e) \<and> cset_isSubsetOf (mem st') sub set' = Inr True) \<and>
           (\<exists>sub\<in>set (elements P). \<exists>e. deref (mem st') sub = Inr e \<and> cset_isEmpty e)"
proof -
  let ?xs = "elements s"
  let ?N = "(2::nat) ^ length ?xs"
  let ?r = "length (heap st)" and ?base = "length (heap (mem st))"
  from assms(1) obtain p where p: "set' = Some p" "p < ?base" "heap (mem st) ! p = Some s"
    by (cases set') (auto simp: deref_def split: if_splits option.splits)
  from assms(3,4) have ord: "index_ordered (cmp_fn s (mem (mem st))) ?xs"
    by (simp add: index_ordered_sorted strictly_sorted_def)
  \<comment> \<open>the run of the function\<close>
  define c :: size_t
    where "c = (if (word_of_nat ?N :: size_t) = 0 then DEFAULT_CAPACITY else word_of_nat ?N)"
  from powerSet_inv_start [OF assms(1), of 1 sizeof_CSet_ptr c "Some cset_cleanup"
      "Some cset_genericToString"]
  obtain inner st1 b where start:
    "cset_create (mem st) (elemsz s) 1 (Some (cmp_fn s)) (cleanup_fn s) (toString_fn s)
       = Inr (Some ?base, inner)"
    "cset_add_at
       (st\<lparr>heap := heap st @ [Some \<lparr>elements = [], elemsz = sizeof_CSet_ptr, capacity = c,
                 cmp_fn = cset_compare, cleanup_fn = Some cset_cleanup,
                 toString_fn = Some cset_genericToString\<rparr>],
            mem := inner\<rparr>)
       (Some ?r) (Some ?base) = Inr (b, st1)"
    "powerSet_inv st st1 s 1"
    by blast
  from powerSet_loop_inv [OF ord start(3)]
  obtain st' where loop: "powerSet_loop st1 s (Some ?r) ?N 1 = Inr st'"
    and inv: "powerSet_inv st st' s ?N"
    by auto
  from assms(2) have small: "\<not> n_elements s \<ge> 31" by (simp add: cset_size_def)
  have run: "cset_powerSet st set' = Inr (Some ?r, st')"
    using assms(1) small start(1,2) loop
    by (simp add: cset_powerSet_def Let_def cset_create_fresh c_def n_elements_def)
  \<comment> \<open>what the invariant says at the end\<close>
  from inv obtain P where P: "heap st' ! ?r = Some P" "length (elements P) = ?N"
    "set (elements P) = (\<lambda>j. Some (?base + j)) ` {..<?N}"
    unfolding powerSet_inv_def by blast
  from inv have lenr: "length (heap st') = ?r + 1" and m: "mem (mem st') = mem (mem st)"
    and len: "length (heap (mem st')) = ?base + ?N"
    and old: "take ?base (heap (mem st')) = heap (mem st)"
    and subs: "\<forall>j<?N. \<exists>sub. heap (mem st') ! (?base + j) = Some sub \<and>
                elements sub = pick j ?xs 0 \<and> elemsz sub = elemsz s \<and> cmp_fn sub = cmp_fn s"
    by (simp_all add: powerSet_inv_def)
  have d_P: "deref st' (Some ?r) = Inr P" using P lenr by (intro deref_heap) simp_all
  have size: "cset_size P = 2 ^ nat (cset_size s)"
    using P by (simp add: cset_size_def n_elements_def)
  have "heap (mem st') ! p = take ?base (heap (mem st')) ! p" using p by simp
  with old p len have d_s: "deref (mem st') (Some p) = Inr s"
    by (intro deref_heap) simp_all
  have each: "(\<exists>e. deref (mem st') sub = Inr e) \<and> cset_isSubsetOf (mem st') sub set' = Inr True"
    if "sub \<in> set (elements P)" for sub
  proof -
    from that P obtain j where j: "j < ?N" "sub = Some (?base + j)" by auto
    with subs obtain e where e: "heap (mem st') ! (?base + j) = Some e"
      "elements e = pick j ?xs 0" by blast
    from j e len have d_e: "deref (mem st') sub = Inr e" by (simp add: deref_def)
    from e have "set (elements e) \<subseteq> set ?xs" by (simp add: set_pick)
    from isSubsetOf_loop_stored [OF d_s _ this] ord m
    have "isSubsetOf_loop (mem st') (Some p) (elements e) = Inr True" by simp
    with d_e j p show ?thesis by (simp add: cset_isSubsetOf_def)
  qed
  have "Some ?base \<in> set (elements P)" using P by (auto simp: image_iff intro: bexI [of _ 0])
  moreover from subs obtain e where "heap (mem st') ! ?base = Some e" "elements e = pick 0 ?xs 0"
    by (metis add.right_neutral zero_less_numeral zero_less_power)
  with len have "deref (mem st') (Some ?base) = Inr e \<and> cset_isEmpty e"
    by (simp add: deref_def cset_isEmpty_def n_elements_def pick_zero)
  ultimately have empty: "\<exists>sub\<in>set (elements P). \<exists>e. deref (mem st') sub = Inr e \<and> cset_isEmpty e"
    by blast
  from run d_P size each empty show ?thesis by blast
qed

theorem cset_powerSet_subsets_witness:
  "deref (mem \<lparr>heap = [], mem = \<lparr>heap = [Some (int_set [1, 2])], mem = ()\<rparr>\<rparr>) (Some 0)
     = Inr (int_set [1, 2]) \<and>
   cset_size (int_set [1, 2]) < 31 \<and>
   valid_cmp_on (set (elements (int_set [1, 2])))
     (cmp_fn (int_set [1, 2])
        (mem (mem \<lparr>heap = [], mem = \<lparr>heap = [Some (int_set [1, 2])], mem = ()\<rparr>\<rparr>))) \<and>
   strictly_sorted (mem (mem \<lparr>heap = [], mem = \<lparr>heap = [Some (int_set [1, 2])], mem = ()\<rparr>\<rparr>))
     (int_set [1, 2]) \<and>
   (\<exists>power_set st' P.
      cset_powerSet \<lparr>heap = [], mem = \<lparr>heap = [Some (int_set [1, 2])], mem = ()\<rparr>\<rparr> (Some 0)
        = Inr (power_set, st') \<and>
      deref st' power_set = Inr P \<and>
      cset_size P = 2 ^ nat (cset_size (int_set [1, 2])) \<and>
      (\<forall>sub\<in>set (elements P).
         (\<exists>e. deref (mem st') sub = Inr e) \<and>
         cset_isSubsetOf (mem st') sub (Some 0) = Inr True) \<and>
      (\<exists>sub\<in>set (elements P). \<exists>e. deref (mem st') sub = Inr e \<and> cset_isEmpty e))"
proof -
  let ?s = "int_set [1, 2]"
  let ?st = "\<lparr>heap = [], mem = \<lparr>heap = [Some ?s], mem = ()\<rparr>\<rparr>"
  have h1: "deref (mem ?st) (Some 0) = Inr ?s" by (simp add: deref_def)
  have h2: "cset_size ?s < 31" by (simp add: cset_size_def n_elements_def int_set_def)
  have h3: "valid_cmp_on (set (elements ?s)) (cmp_fn ?s (mem (mem ?st)))"
    by (simp add: valid_cmp_on_def int_set_def compare_ints_def less_by_def greater_by_def)
  have h4: "strictly_sorted (mem (mem ?st)) ?s"
    by (simp add: strictly_sorted_def int_set_def compare_ints_def less_by_def)
  from cset_powerSet_subsets [OF h1 h2 h3 h4] h1 h2 h3 h4 show ?thesis by blast
qed

text \<open>
  The scenario of the specification: the power set of \<open>{1, 2}\<close> holds four pointers,
  to \<open>{}\<close>, \<open>{1}\<close>, \<open>{2}\<close> and \<open>{1, 2}\<close>.
\<close>

lemma cset_powerSet_example:
  "cset_powerSet \<lparr>heap = [], mem = \<lparr>heap = [Some (int_set [1, 2])], mem = ()\<rparr>\<rparr> (Some 0)
   = Inr (Some 0,
       \<lparr>heap = [Some \<lparr>elements = [Some 1, Some 2, Some 3, Some 4], elemsz = 8, capacity = 8,
                       cmp_fn = cset_compare, cleanup_fn = Some cset_cleanup,
                       toString_fn = Some cset_genericToString\<rparr>],
          mem = \<lparr>heap = [Some (int_set [1, 2]), Some ((int_set [])\<lparr>capacity := 1\<rparr>),
                          Some ((int_set [1])\<lparr>capacity := 2\<rparr>),
                          Some ((int_set [2])\<lparr>capacity := 2\<rparr>),
                          Some ((int_set [1, 2])\<lparr>capacity := 4\<rparr>)], mem = ()\<rparr>\<rparr>)"
  by (simp add: cset_powerSet_def powerSet_loop.simps set_eval store_eval client_eval
      cset_compare_def sizeof_CSet_ptr_def popcount.simps bit_Suc bit_0)

end
